theory Spec2Isabelle
  imports Complex_Main "HOL-Library.Product_Lexorder"
begin

section \<open>The property graph\<close>

text \<open>
  The program keeps its data in a property-graph store and talks to it only through
  Cypher statements (\<^verbatim>\<open>etl.py\<close> writes, \<^verbatim>\<open>main.py\<close> reads).  The store is
  modelled as a list of nodes and a list of relationships.  Nothing in the program deletes
  a node, so the position of a node in the list is its identity: relationships refer to
  their end points by position, and Cypher's comparison of nodes (\<^verbatim>\<open>DISTINCT p\<close>,
  \<^verbatim>\<open>p2 IN customer_products\<close>) is comparison of positions.

  A property that a node or relationship does not have is \<open>None\<close> (Cypher's null).
  The \<^verbatim>\<open>id\<close> property is a string or an integer, as the relational source delivers it;
  the query end points of \<^verbatim>\<open>main.py\<close> always pass a string.  Prices are Python floats
  in the source; they are modelled as rationals, of which only the order is used.  Dates
  and timestamps are kept as the ISO-8601 text that the loader hands to \<^verbatim>\<open>date()\<close> and
  \<^verbatim>\<open>datetime()\<close>.
\<close>

datatype pval = IntV int | StrV string

datatype label = Category | Product | Customer | Order

datatype reltype = IN_CATEGORY | PLACED | CONTAINS | VIEWED | CLICKED | ADDED_TO_CART | INTERACTED

record node =
  label :: label
  ident :: pval
  name :: "string option"
  price :: "rat option"
  join_date :: "string option"
  ts :: "string option"

record rel =
  rtype :: reltype
  src :: nat
  tgt :: nat
  quantity :: "int option"
  rel_ts :: "string option"
  event_id :: "pval option"

record graph =
  nodes :: "node list"
  rels :: "rel list"

definition empty_graph :: graph where
  "empty_graph = \<lparr>nodes = [], rels = []\<rparr>"

definition is_event :: "reltype \<Rightarrow> bool" where
  "is_event t \<longleftrightarrow> t = VIEWED \<or> t = CLICKED \<or> t = ADDED_TO_CART \<or> t = INTERACTED"

subsection \<open>Cypher patterns used by the program\<close>

text \<open>\<^verbatim>\<open>(x:L)\<close>: the node at position \<open>i\<close> exists and carries label \<open>l\<close>.\<close>

definition has_label :: "graph \<Rightarrow> nat \<Rightarrow> label \<Rightarrow> bool" where
  "has_label g i l \<longleftrightarrow> i < length (nodes g) \<and> label (nodes g ! i) = l"

text \<open>\<^verbatim>\<open>MATCH (x:L)\<close>: all nodes with the label.\<close>

definition label_ids :: "label \<Rightarrow> graph \<Rightarrow> nat list" where
  "label_ids l g = [i \<leftarrow> [0..<length (nodes g)]. label (nodes g ! i) = l]"

text \<open>\<^verbatim>\<open>MATCH (x:L {id: $k})\<close>: all nodes with the label and the id.\<close>

definition node_ids :: "label \<Rightarrow> pval \<Rightarrow> graph \<Rightarrow> nat list" where
  "node_ids l k g =
     [i \<leftarrow> [0..<length (nodes g)]. label (nodes g ! i) = l \<and> ident (nodes g ! i) = k]"

definition new_node :: "label \<Rightarrow> pval \<Rightarrow> node" where
  "new_node l k =
     \<lparr>label = l, ident = k, name = None, price = None, join_date = None, ts = None\<rparr>"

text \<open>\<^verbatim>\<open>MERGE (x:L {id: $k})\<close>: match, or create when nothing matches.\<close>

definition merge_node :: "label \<Rightarrow> pval \<Rightarrow> graph \<Rightarrow> graph" where
  "merge_node l k g =
     (if node_ids l k g = [] then g\<lparr>nodes := nodes g @ [new_node l k]\<rparr> else g)"

text \<open>
  \<^verbatim>\<open>MERGE (x:L {id: $k}) SET x.a = ...\<close>: after the merge \<open>x\<close> ranges over every node
  with the label and the id, and \<^verbatim>\<open>SET\<close> writes to each of them.
\<close>

definition set_nodes :: "label \<Rightarrow> pval \<Rightarrow> (node \<Rightarrow> node) \<Rightarrow> graph \<Rightarrow> graph" where
  "set_nodes l k f g =
     g\<lparr>nodes := map (\<lambda>n. if label n = l \<and> ident n = k then f n else n) (nodes g)\<rparr>"

definition rel_between :: "reltype \<Rightarrow> nat \<Rightarrow> nat \<Rightarrow> rel \<Rightarrow> bool" where
  "rel_between t a b r \<longleftrightarrow> rtype r = t \<and> src r = a \<and> tgt r = b"

definition new_rel :: "reltype \<Rightarrow> nat \<Rightarrow> nat \<Rightarrow> rel" where
  "new_rel t a b =
     \<lparr>rtype = t, src = a, tgt = b, quantity = None, rel_ts = None, event_id = None\<rparr>"

text \<open>\<^verbatim>\<open>MERGE (a)-[:T]->(b)\<close> for bound \<open>a\<close> and \<open>b\<close>.\<close>

definition merge_rel :: "reltype \<Rightarrow> nat \<times> nat \<Rightarrow> graph \<Rightarrow> graph" where
  "merge_rel t ab g =
     (if \<exists>r \<in> set (rels g). rel_between t (fst ab) (snd ab) r then g
      else g\<lparr>rels := rels g @ [new_rel t (fst ab) (snd ab)]\<rparr>)"

text \<open>\<^verbatim>\<open>SET r.a = ...\<close> on every relationship of type \<open>t\<close> from \<open>a\<close> to \<open>b\<close>.\<close>

definition set_rels :: "reltype \<Rightarrow> nat \<times> nat \<Rightarrow> (rel \<Rightarrow> rel) \<Rightarrow> graph \<Rightarrow> graph" where
  "set_rels t ab f g =
     g\<lparr>rels := map (\<lambda>r. if rel_between t (fst ab) (snd ab) r then f r else r) (rels g)\<rparr>"

text \<open>\<^verbatim>\<open>CREATE (a)-[r:T]->(b) SET r.a = ...\<close>: a new relationship, whatever exists.\<close>

definition create_rel :: "rel \<Rightarrow> graph \<Rightarrow> graph" where
  "create_rel r g = g\<lparr>rels := rels g @ [r]\<rparr>"

section \<open>The loader (\<^verbatim>\<open>etl.py\<close>)\<close>

text \<open>
  The six data frames read from the relational store.  A row holds the columns that the
  loader reads, already of the type it converts them to (\<^verbatim>\<open>float(row['price'])\<close>,
  \<^verbatim>\<open>int(row['quantity'])\<close>, the ISO text of a timestamp).
\<close>

record category_row =
  cat_id :: pval
  cat_name :: string

record product_row =
  prod_id :: pval
  prod_name :: string
  prod_category_id :: pval
  prod_price :: rat

record customer_row =
  cust_id :: pval
  cust_name :: string
  cust_join_date :: string

record order_row =
  ord_id :: pval
  ord_customer_id :: pval
  ord_ts :: string

record order_item_row =
  item_order_id :: pval
  item_product_id :: pval
  item_quantity :: int

record event_row =
  ev_id :: pval
  ev_customer_id :: pval
  ev_product_id :: pval
  ev_event_type :: string
  ev_ts :: string

record tables =
  customers_df :: "customer_row list"
  categories_df :: "category_row list"
  products_df :: "product_row list"
  orders_df :: "order_row list"
  order_items_df :: "order_item_row list"
  events_df :: "event_row list"

text \<open>
  \<^verbatim>\<open>MERGE (cat:Category {id: $id}) SET cat.name = $name\<close>
\<close>

definition load_category :: "category_row \<Rightarrow> graph \<Rightarrow> graph" where
  "load_category row g =
     set_nodes Category (cat_id row) (\<lambda>n. n\<lparr>name := Some (cat_name row)\<rparr>)
       (merge_node Category (cat_id row) g)"

text \<open>
  \<^verbatim>\<open>MERGE (p:Product {id: $id}) SET p.name = $name, p.price = $price
  WITH p MATCH (cat:Category {id: $category_id}) MERGE (p)-[:IN_CATEGORY]->(cat)\<close>
\<close>

definition load_product :: "product_row \<Rightarrow> graph \<Rightarrow> graph" where
  "load_product row g =
     (let g1 = set_nodes Product (prod_id row)
                 (\<lambda>n. n\<lparr>name := Some (prod_name row), price := Some (prod_price row)\<rparr>)
                 (merge_node Product (prod_id row) g)
      in fold (merge_rel IN_CATEGORY)
           [(p, cat). p \<leftarrow> node_ids Product (prod_id row) g1,
                      cat \<leftarrow> node_ids Category (prod_category_id row) g1]
           g1)"

text \<open>
  \<^verbatim>\<open>MERGE (c:Customer {id: $id}) SET c.name = $name, c.join_date = date($join_date)\<close>
\<close>

definition load_customer :: "customer_row \<Rightarrow> graph \<Rightarrow> graph" where
  "load_customer row g =
     set_nodes Customer (cust_id row)
       (\<lambda>n. n\<lparr>name := Some (cust_name row), join_date := Some (cust_join_date row)\<rparr>)
       (merge_node Customer (cust_id row) g)"

text \<open>
  \<^verbatim>\<open>MERGE (o:Order {id: $id}) SET o.ts = datetime($ts)
  WITH o MATCH (c:Customer {id: $customer_id}) MERGE (c)-[:PLACED]->(o)\<close>
\<close>

definition load_order :: "order_row \<Rightarrow> graph \<Rightarrow> graph" where
  "load_order row g =
     (let g1 = set_nodes Order (ord_id row) (\<lambda>n. n\<lparr>ts := Some (ord_ts row)\<rparr>)
                 (merge_node Order (ord_id row) g)
      in fold (merge_rel PLACED)
           [(c, od). od \<leftarrow> node_ids Order (ord_id row) g1,
                    c \<leftarrow> node_ids Customer (ord_customer_id row) g1]
           g1)"

text \<open>
  \<^verbatim>\<open>MATCH (o:Order {id: $order_id}) MATCH (p:Product {id: $product_id})
  MERGE (o)-[r:CONTAINS]->(p) SET r.quantity = $quantity\<close>
\<close>

definition load_order_item :: "order_item_row \<Rightarrow> graph \<Rightarrow> graph" where
  "load_order_item row g =
     fold (\<lambda>op g'. set_rels CONTAINS op (\<lambda>r. r\<lparr>quantity := Some (item_quantity row)\<rparr>)
                     (merge_rel CONTAINS op g'))
       [(od, p). od \<leftarrow> node_ids Order (item_order_id row) g,
                p \<leftarrow> node_ids Product (item_product_id row) g]
       g"

text \<open>
  \<^verbatim>\<open>event_type_map.get(row['event_type'], 'INTERACTED')\<close> with
  \<^verbatim>\<open>{'view': 'VIEWED', 'click': 'CLICKED', 'add_to_cart': 'ADDED_TO_CART'}\<close>.
\<close>

definition event_type_map :: "string \<rightharpoonup> reltype" where
  "event_type_map =
     [''view'' \<mapsto> VIEWED, ''click'' \<mapsto> CLICKED, ''add_to_cart'' \<mapsto> ADDED_TO_CART]"

definition rel_type :: "string \<Rightarrow> reltype" where
  "rel_type event_type =
     (case event_type_map event_type of Some t \<Rightarrow> t | None \<Rightarrow> INTERACTED)"

text \<open>
  \<^verbatim>\<open>MATCH (c:Customer {id: $customer_id}) MATCH (p:Product {id: $product_id})
  CREATE (c)-[r:{rel_type}]->(p) SET r.ts = datetime($ts), r.event_id = $event_id\<close>
\<close>

definition event_rel :: "event_row \<Rightarrow> nat \<times> nat \<Rightarrow> rel" where
  "event_rel row cp =
     \<lparr>rtype = rel_type (ev_event_type row), src = fst cp, tgt = snd cp, quantity = None,
      rel_ts = Some (ev_ts row), event_id = Some (ev_id row)\<rparr>"

definition load_event :: "event_row \<Rightarrow> graph \<Rightarrow> graph" where
  "load_event row g =
     fold (\<lambda>cp. create_rel (event_rel row cp))
       [(c, p). c \<leftarrow> node_ids Customer (ev_customer_id row) g,
                p \<leftarrow> node_ids Product (ev_product_id row) g]
       g"

text \<open>
  The load itself: one statement per row, table after table, in the order of the source
  (categories, products, customers, orders, order items, events).
\<close>

definition etl :: "tables \<Rightarrow> graph \<Rightarrow> graph" where
  "etl t g =
     fold load_event (events_df t)
       (fold load_order_item (order_items_df t)
         (fold load_order (orders_df t)
           (fold load_customer (customers_df t)
             (fold load_product (products_df t)
               (fold load_category (categories_df t) g)))))"

section \<open>The query engine (\<^verbatim>\<open>main.py\<close>)\<close>

text \<open>
  Every end point runs one Cypher statement and wraps the records in a constant envelope
  (\<^verbatim>\<open>{"strategy": ..., "recommendations": [...]}\<close>); the model returns the records.
  An exception that leaves the end point is \<open>Inl\<close>: the driver raises
  \<^verbatim>\<open>OverflowError\<close> for an integer parameter that does not fit in 64 bits, the store
  rejects a negative \<^verbatim>\<open>LIMIT\<close>, and \<^verbatim>\<open>dict(result.single())\<close> raises
  \<^verbatim>\<open>TypeError\<close> when the statement produced no record (\<^verbatim>\<open>single()\<close> is then
  \<^verbatim>\<open>None\<close>).
\<close>

datatype error = OverflowError | InvalidLimit | TypeError

text \<open>
  The record of the four ranked queries: \<^verbatim>\<open>product_id\<close>, \<^verbatim>\<open>product_name\<close>,
  \<^verbatim>\<open>price\<close> and the count, which the queries call \<^verbatim>\<open>order_count\<close>,
  \<^verbatim>\<open>popularity\<close> or \<^verbatim>\<open>co_purchase_count\<close>.
\<close>

record ranked_row =
  product_id :: pval
  product_name :: "string option"
  row_price :: "rat option"
  row_count :: nat

definition ranked_row_of :: "graph \<Rightarrow> nat \<times> nat \<Rightarrow> ranked_row" where
  "ranked_row_of g pc =
     \<lparr>product_id = ident (nodes g ! fst pc), product_name = name (nodes g ! fst pc),
      row_price = price (nodes g ! fst pc), row_count = snd pc\<rparr>"

text \<open>
  \<^verbatim>\<open>ORDER BY count DESC, price ASC\<close>.  In ascending order Cypher puts null after every
  value.  Rows that agree on count and price come in the order the store produces them;
  the model keeps the order of the matches (the sort is stable).
\<close>

definition price_key :: "rat option \<Rightarrow> nat \<times> rat" where
  "price_key p = (case p of Some x \<Rightarrow> (0, x) | None \<Rightarrow> (1, 0))"

definition rank_key :: "ranked_row \<Rightarrow> int \<times> nat \<times> rat" where
  "rank_key r = (- int (row_count r), price_key (row_price r))"

definition order_by_rank :: "ranked_row list \<Rightarrow> ranked_row list" where
  "order_by_rank rows = sort_key rank_key rows"

text \<open>
  \<^verbatim>\<open>LIMIT $limit\<close> with the caller's integer, which the end point passes on as it
  is.  Python's integers are unbounded; the driver sends an integer parameter as a signed
  64-bit value and raises \<^verbatim>\<open>OverflowError\<close> outside that range, before the statement
  runs.  The store rejects a negative limit.
\<close>

definition limit_rows :: "int \<Rightarrow> 'a list \<Rightarrow> error + 'a list" where
  "limit_rows n xs =
     (if n < - (2 ^ 63) \<or> 2 ^ 63 \<le> n then Inl OverflowError
      else if n < 0 then Inl InvalidLimit
      else Inr (take (nat n) xs))"

text \<open>\<^verbatim>\<open>WITH x, count(y)\<close> where \<open>y\<close> is never null: one row per distinct \<open>x\<close>.\<close>

definition count_by :: "'a list \<Rightarrow> ('a \<times> nat) list" where
  "count_by xs = map (\<lambda>x. (x, count_list xs x)) (remdups xs)"

text \<open>\<^verbatim>\<open>WITH x, count(y)\<close> after an optional match: nulls are not counted.\<close>

definition count_nonnull_by :: "('a \<times> 'b option) list \<Rightarrow> ('a \<times> nat) list" where
  "count_nonnull_by xys =
     map (\<lambda>x. (x, length [xy \<leftarrow> xys. fst xy = x \<and> snd xy \<noteq> None])) (remdups (map fst xys))"

text \<open>\<^verbatim>\<open>WITH x, count(DISTINCT y)\<close>.\<close>

definition count_distinct_by :: "('a \<times> 'b) list \<Rightarrow> ('a \<times> nat) list" where
  "count_distinct_by xys =
     map (\<lambda>x. (x, length (remdups (map snd [xy \<leftarrow> xys. fst xy = x])))) (remdups (map fst xys))"

text \<open>\<^verbatim>\<open>OPTIONAL MATCH\<close>: one row with null when nothing matches.\<close>

definition optional :: "'a list \<Rightarrow> 'a option list" where
  "optional xs = (if xs = [] then [None] else map Some xs)"

text \<open>\<^verbatim>\<open>(p)<-[:CONTAINS]-(o:Order)\<close> for a bound \<open>p\<close>: the orders, one per relationship.\<close>

definition orders_of :: "graph \<Rightarrow> nat \<Rightarrow> nat list" where
  "orders_of g p =
     [src r. r \<leftarrow> rels g, rtype r = CONTAINS \<and> tgt r = p \<and> has_label g (src r) Order]"

text \<open>\<^verbatim>\<open>(c)-[:T]->(x:Product)\<close> for a bound \<open>c\<close>: the products, one per relationship.\<close>

definition out_products :: "graph \<Rightarrow> reltype \<Rightarrow> nat \<Rightarrow> nat list" where
  "out_products g t c =
     [tgt r. r \<leftarrow> rels g, rtype r = t \<and> src r = c \<and> has_label g (tgt r) Product]"

text \<open>
  \<^verbatim>\<open>(c)-[:PLACED]->(o:Order)-[:CONTAINS]->(p:Product)\<close> for a bound \<open>c\<close>: the products,
  one per path.
\<close>

definition purchased :: "graph \<Rightarrow> nat \<Rightarrow> nat list" where
  "purchased g c =
     [tgt r2. r1 \<leftarrow> rels g, rtype r1 = PLACED \<and> src r1 = c \<and> has_label g (tgt r1) Order,
              r2 \<leftarrow> rels g, rtype r2 = CONTAINS \<and> src r2 = tgt r1 \<and> has_label g (tgt r2) Product]"

subsection \<open>Popular products\<close>

text \<open>
  \<^verbatim>\<open>MATCH (p:Product)<-[:CONTAINS]-(o:Order)
  WITH p, count(o) as order_count
  RETURN p.id as product_id, p.name as product_name, p.price as price, order_count
  ORDER BY order_count DESC, p.price ASC
  LIMIT $limit\<close>
\<close>

definition popular_matches :: "graph \<Rightarrow> nat list" where
  "popular_matches g =
     [tgt r. r \<leftarrow> rels g,
             rtype r = CONTAINS \<and> has_label g (src r) Order \<and> has_label g (tgt r) Product]"

definition popular_ranking :: "graph \<Rightarrow> ranked_row list" where
  "popular_ranking g = order_by_rank (map (ranked_row_of g) (count_by (popular_matches g)))"

definition popular_products :: "graph \<Rightarrow> int \<Rightarrow> error + ranked_row list" where
  "popular_products g limit = limit_rows limit (popular_ranking g)"

subsection \<open>Content-based recommendations\<close>

text \<open>
  \<^verbatim>\<open>MATCH (p:Product {id: $product_id})-[:IN_CATEGORY]->(cat:Category)
  MATCH (rec:Product)-[:IN_CATEGORY]->(cat)
  WHERE rec.id <> p.id
  OPTIONAL MATCH (rec)<-[:CONTAINS]-(o:Order)
  WITH rec, count(o) as popularity
  RETURN rec.id as product_id, rec.name as product_name, rec.price as price, popularity
  ORDER BY popularity DESC, rec.price ASC
  LIMIT $limit\<close>
\<close>

definition content_matches :: "graph \<Rightarrow> string \<Rightarrow> (nat \<times> nat option) list" where
  "content_matches g pid =
     [(src r2, od).
        p \<leftarrow> node_ids Product (StrV pid) g,
        r1 \<leftarrow> rels g, rtype r1 = IN_CATEGORY \<and> src r1 = p \<and> has_label g (tgt r1) Category,
        r2 \<leftarrow> rels g, rtype r2 = IN_CATEGORY \<and> tgt r2 = tgt r1 \<and> has_label g (src r2) Product,
        ident (nodes g ! src r2) \<noteq> ident (nodes g ! p),
        od \<leftarrow> optional (orders_of g (src r2))]"

definition content_ranking :: "graph \<Rightarrow> string \<Rightarrow> ranked_row list" where
  "content_ranking g pid =
     order_by_rank (map (ranked_row_of g) (count_nonnull_by (content_matches g pid)))"

definition content_based_recommendations ::
  "graph \<Rightarrow> string \<Rightarrow> int \<Rightarrow> error + ranked_row list" where
  "content_based_recommendations g pid limit = limit_rows limit (content_ranking g pid)"

subsection \<open>Co-purchase recommendations\<close>

text \<open>
  \<^verbatim>\<open>MATCH (p:Product {id: $product_id})<-[:CONTAINS]-(o:Order)-[:CONTAINS]->(rec:Product)
  WHERE rec.id <> p.id
  WITH rec, count(o) as co_purchase_count
  RETURN rec.id as product_id, rec.name as product_name, rec.price as price,
         co_purchase_count
  ORDER BY co_purchase_count DESC, rec.price ASC
  LIMIT $limit\<close>

  Cypher never uses one relationship twice in a pattern.  The two CONTAINS relationships
  of a match end in nodes with different ids, so they are different relationships and the
  model needs no further test.
\<close>

definition co_purchase_matches :: "graph \<Rightarrow> string \<Rightarrow> nat list" where
  "co_purchase_matches g pid =
     [tgt r2.
        p \<leftarrow> node_ids Product (StrV pid) g,
        r1 \<leftarrow> rels g, rtype r1 = CONTAINS \<and> tgt r1 = p \<and> has_label g (src r1) Order,
        r2 \<leftarrow> rels g, rtype r2 = CONTAINS \<and> src r2 = src r1 \<and> has_label g (tgt r2) Product,
        ident (nodes g ! tgt r2) \<noteq> ident (nodes g ! p)]"

definition co_purchase_ranking :: "graph \<Rightarrow> string \<Rightarrow> ranked_row list" where
  "co_purchase_ranking g pid =
     order_by_rank (map (ranked_row_of g) (count_by (co_purchase_matches g pid)))"

definition co_purchase_recommendations ::
  "graph \<Rightarrow> string \<Rightarrow> int \<Rightarrow> error + ranked_row list" where
  "co_purchase_recommendations g pid limit = limit_rows limit (co_purchase_ranking g pid)"

subsection \<open>Collaborative filtering\<close>

text \<open>
  \<^verbatim>\<open>MATCH (c:Customer {id: $customer_id})-[:PLACED]->(o:Order)-[:CONTAINS]->(p:Product)
  WITH c, collect(DISTINCT p) as customer_products\<close>

  One row per matching customer that has a purchase.
\<close>

definition customer_products :: "graph \<Rightarrow> string \<Rightarrow> (nat \<times> nat list) list" where
  "customer_products g cid =
     [(c, remdups (purchased g c)). c \<leftarrow> node_ids Customer (StrV cid) g, purchased g c \<noteq> []]"

text \<open>
  \<^verbatim>\<open>MATCH (other:Customer)-[:PLACED]->(o2:Order)-[:CONTAINS]->(p2:Product)
  WHERE other.id <> c.id AND p2 IN customer_products
  WITH c, customer_products, other, count(DISTINCT p2) as common_products
  ORDER BY common_products DESC
  LIMIT 10\<close>
\<close>

definition common_products :: "graph \<Rightarrow> nat \<times> nat list \<Rightarrow> (nat \<times> nat) list" where
  "common_products g ccp =
     count_distinct_by
       [(other, p2). other \<leftarrow> label_ids Customer g,
                     ident (nodes g ! other) \<noteq> ident (nodes g ! fst ccp),
                     p2 \<leftarrow> purchased g other, p2 \<in> set (snd ccp)]"

definition neighbours :: "graph \<Rightarrow> string \<Rightarrow> ((nat \<times> nat list) \<times> nat \<times> nat) list" where
  "neighbours g cid =
     take 10
       (sort_key (\<lambda>row. - int (snd (snd row)))
          [(ccp, other_n). ccp \<leftarrow> customer_products g cid, other_n \<leftarrow> common_products g ccp])"

text \<open>
  \<^verbatim>\<open>MATCH (other)-[:PLACED]->(o3:Order)-[:CONTAINS]->(rec:Product)
  WHERE NOT rec IN customer_products
  WITH rec, count(DISTINCT other) as popularity
  RETURN rec.id as product_id, rec.name as product_name, rec.price as price, popularity
  ORDER BY popularity DESC, rec.price ASC
  LIMIT $limit\<close>
\<close>

definition collaborative_matches :: "graph \<Rightarrow> string \<Rightarrow> (nat \<times> nat) list" where
  "collaborative_matches g cid =
     [(rec, fst (snd row)). row \<leftarrow> neighbours g cid,
                            rec \<leftarrow> purchased g (fst (snd row)), rec \<notin> set (snd (fst row))]"

definition collaborative_ranking :: "graph \<Rightarrow> string \<Rightarrow> ranked_row list" where
  "collaborative_ranking g cid =
     order_by_rank (map (ranked_row_of g) (count_distinct_by (collaborative_matches g cid)))"

definition collaborative_recommendations ::
  "graph \<Rightarrow> string \<Rightarrow> int \<Rightarrow> error + ranked_row list" where
  "collaborative_recommendations g cid limit = limit_rows limit (collaborative_ranking g cid)"

subsection \<open>Customer journey\<close>

text \<open>
  \<^verbatim>\<open>MATCH (c:Customer {id: $customer_id})
  OPTIONAL MATCH (c)-[v:VIEWED]->(viewed:Product)
  OPTIONAL MATCH (c)-[cl:CLICKED]->(clicked:Product)
  OPTIONAL MATCH (c)-[a:ADDED_TO_CART]->(added:Product)
  OPTIONAL MATCH (c)-[:PLACED]->(o:Order)-[:CONTAINS]->(purchased:Product)
  RETURN c.name as customer_name,
         count(DISTINCT viewed) as views, count(DISTINCT clicked) as clicks,
         count(DISTINCT added) as cart_additions, count(DISTINCT purchased) as purchases\<close>

  The optional matches multiply: a row is a customer with one choice from each of the
  four.  The rows are grouped by the customer's name, the only column of the
  \<^verbatim>\<open>RETURN\<close> that is not an aggregate.
\<close>

record journey_row =
  j_name :: "string option"
  j_viewed :: "nat option"
  j_clicked :: "nat option"
  j_added :: "nat option"
  j_purchased :: "nat option"

record journey =
  customer_name :: "string option"
  views :: nat
  clicks :: nat
  cart_additions :: nat
  purchases :: nat

definition journey_matches :: "graph \<Rightarrow> string \<Rightarrow> journey_row list" where
  "journey_matches g cid =
     [\<lparr>j_name = name (nodes g ! c), j_viewed = v, j_clicked = cl, j_added = a,
       j_purchased = pu\<rparr>.
        c \<leftarrow> node_ids Customer (StrV cid) g,
        v \<leftarrow> optional (out_products g VIEWED c),
        cl \<leftarrow> optional (out_products g CLICKED c),
        a \<leftarrow> optional (out_products g ADDED_TO_CART c),
        pu \<leftarrow> optional (purchased g c)]"

text \<open>\<^verbatim>\<open>count(DISTINCT x)\<close> over the rows of a group: nulls are not counted.\<close>

definition count_distinct :: "'a option list \<Rightarrow> nat" where
  "count_distinct xs = length (remdups [x \<leftarrow> xs. x \<noteq> None])"

definition journey_records :: "graph \<Rightarrow> string \<Rightarrow> journey list" where
  "journey_records g cid =
     (let rows = journey_matches g cid in
      map (\<lambda>nm. let grp = [row \<leftarrow> rows. j_name row = nm] in
             \<lparr>customer_name = nm,
              views = count_distinct (map j_viewed grp),
              clicks = count_distinct (map j_clicked grp),
              cart_additions = count_distinct (map j_added grp),
              purchases = count_distinct (map j_purchased grp)\<rparr>)
          (remdups (map j_name rows)))"

text \<open>
  \<^verbatim>\<open>journey = dict(result.single())\<close>: \<^verbatim>\<open>single()\<close> gives the first record, or
  \<^verbatim>\<open>None\<close> when there is none, and \<^verbatim>\<open>dict(None)\<close> raises \<^verbatim>\<open>TypeError\<close>.
\<close>

definition single :: "'a list \<Rightarrow> 'a option" where
  "single records = (case records of [] \<Rightarrow> None | r # _ \<Rightarrow> Some r)"

definition dict_of :: "'a option \<Rightarrow> error + 'a" where
  "dict_of r = (case r of None \<Rightarrow> Inl TypeError | Some x \<Rightarrow> Inr x)"

definition customer_journey :: "graph \<Rightarrow> string \<Rightarrow> error + journey" where
  "customer_journey g cid = dict_of (single (journey_records g cid))"

subsection \<open>Global statistics\<close>

text \<open>
  \<^verbatim>\<open>MATCH (c:Customer) WITH count(c) as customers
  MATCH (p:Product) WITH customers, count(p) as products
  MATCH (o:Order) WITH customers, products, count(o) as orders
  MATCH (cat:Category) WITH customers, products, orders, count(cat) as categories
  MATCH ()-[r]->() WITH customers, products, orders, categories, count(r) as relationships
  RETURN customers, products, orders, categories, relationships\<close>

  The first \<^verbatim>\<open>WITH\<close> has no grouping column: it gives one row, also for no match.  Each
  later \<^verbatim>\<open>WITH\<close> groups by the counts carried along: it gives one row per distinct
  value of them among the rows of its \<^verbatim>\<open>MATCH\<close>, and no row when the \<^verbatim>\<open>MATCH\<close>
  finds nothing.
\<close>

record stats =
  customers :: nat
  products :: nat
  orders :: nat
  categories :: nat
  relationships :: nat

definition match_count :: "'a list \<Rightarrow> 'b list \<Rightarrow> ('a \<times> nat) list" where
  "match_count rows ms = count_by [row. row \<leftarrow> rows, m \<leftarrow> ms]"

definition stats_records :: "graph \<Rightarrow> stats list" where
  "stats_records g =
     (let s0 = [length (label_ids Customer g)];
          s1 = match_count s0 (label_ids Product g);
          s2 = match_count s1 (label_ids Order g);
          s3 = match_count s2 (label_ids Category g);
          s4 = match_count s3 (rels g)
      in map (\<lambda>((((cu, pr), od), ca), re).
                \<lparr>customers = cu, products = pr, orders = od, categories = ca,
                 relationships = re\<rparr>) s4)"

definition get_stats :: "graph \<Rightarrow> error + stats" where
  "get_stats g = dict_of (single (stats_records g))"

section \<open>Notions used to state the properties\<close>

text \<open>The key on which \<^verbatim>\<open>MERGE\<close> identifies a node, and on which it identifies a
  relationship between two bound nodes.\<close>

definition node_key :: "node \<Rightarrow> label \<times> pval" where
  "node_key n = (label n, ident n)"

definition rel_key :: "rel \<Rightarrow> reltype \<times> nat \<times> nat" where
  "rel_key r = (rtype r, src r, tgt r)"

text \<open>No two nodes share label and id; no two relationships other than event
  relationships share type and end points.\<close>

definition unique_nodes :: "graph \<Rightarrow> bool" where
  "unique_nodes g \<longleftrightarrow> distinct (map node_key (nodes g))"

definition unique_rels :: "graph \<Rightarrow> bool" where
  "unique_rels g \<longleftrightarrow> distinct (map rel_key [r \<leftarrow> rels g. \<not> is_event (rtype r)])"

text \<open>The Order nodes that contain product \<open>p\<close>.\<close>

definition containing_orders :: "graph \<Rightarrow> nat \<Rightarrow> nat set" where
  "containing_orders g p =
     {od. has_label g od Order \<and> (\<exists>r \<in> set (rels g). rel_between CONTAINS od p r)}"

text \<open>The Product nodes that customer \<open>c\<close> reaches over one relationship of type \<open>t\<close>.\<close>

definition reached :: "graph \<Rightarrow> reltype \<Rightarrow> nat \<Rightarrow> nat set" where
  "reached g t c = {p. has_label g p Product \<and> (\<exists>r \<in> set (rels g). rel_between t c p r)}"

text \<open>The Product nodes that customer \<open>c\<close> purchased: PLACED, then CONTAINS.\<close>

definition bought :: "graph \<Rightarrow> nat \<Rightarrow> nat set" where
  "bought g c =
     {p. has_label g p Product \<and>
         (\<exists>od. has_label g od Order \<and> (\<exists>r \<in> set (rels g). rel_between PLACED c od r)
               \<and> (\<exists>r \<in> set (rels g). rel_between CONTAINS od p r))}"

text \<open>The order of the ranked queries, on two records: a higher count first, and for
  equal counts a lower price first (a missing price last).\<close>

definition ranks_before :: "ranked_row \<Rightarrow> ranked_row \<Rightarrow> bool" where
  "ranks_before a b \<longleftrightarrow>
     row_count b < row_count a
     \<or> (row_count a = row_count b \<and>
        (case (row_price a, row_price b) of
           (Some x, Some y) \<Rightarrow> x \<le> y
         | (Some x, None) \<Rightarrow> True
         | (None, Some y) \<Rightarrow> False
         | (None, None) \<Rightarrow> True))"

section \<open>Fixtures\<close>

text \<open>
  A small shop.  Ann bought P1; Bob bought P1 and P2; Cy bought P1 and P3; nobody bought
  P4.  Bob viewed P1 twice, P2 and P3 once, and clicked P2.  The order-items table names
  the pair (O3, P3) twice, with different quantities, and one event has a type outside the
  table of the loader.
\<close>

definition shop :: tables where
  "shop = \<lparr>
     customers_df =
       [\<lparr>cust_id = StrV ''A'', cust_name = ''Ann'', cust_join_date = ''2024-01-01''\<rparr>,
        \<lparr>cust_id = StrV ''B'', cust_name = ''Bob'', cust_join_date = ''2024-01-02''\<rparr>,
        \<lparr>cust_id = StrV ''C'', cust_name = ''Cy'', cust_join_date = ''2024-01-03''\<rparr>],
     categories_df = [\<lparr>cat_id = StrV ''K1'', cat_name = ''Books''\<rparr>],
     products_df =
       [\<lparr>prod_id = StrV ''P1'', prod_name = ''p1'', prod_category_id = StrV ''K1'',
         prod_price = 10\<rparr>,
        \<lparr>prod_id = StrV ''P2'', prod_name = ''p2'', prod_category_id = StrV ''K1'',
         prod_price = 20\<rparr>,
        \<lparr>prod_id = StrV ''P3'', prod_name = ''p3'', prod_category_id = StrV ''K1'',
         prod_price = 5\<rparr>,
        \<lparr>prod_id = StrV ''P4'', prod_name = ''p4'', prod_category_id = StrV ''K1'',
         prod_price = 7\<rparr>],
     orders_df =
       [\<lparr>ord_id = StrV ''O1'', ord_customer_id = StrV ''A'', ord_ts = ''2024-02-01T10:00:00''\<rparr>,
        \<lparr>ord_id = StrV ''O2'', ord_customer_id = StrV ''B'', ord_ts = ''2024-02-02T10:00:00''\<rparr>,
        \<lparr>ord_id = StrV ''O3'', ord_customer_id = StrV ''C'', ord_ts = ''2024-02-03T10:00:00''\<rparr>],
     order_items_df =
       [\<lparr>item_order_id = StrV ''O1'', item_product_id = StrV ''P1'', item_quantity = 1\<rparr>,
        \<lparr>item_order_id = StrV ''O2'', item_product_id = StrV ''P1'', item_quantity = 1\<rparr>,
        \<lparr>item_order_id = StrV ''O2'', item_product_id = StrV ''P2'', item_quantity = 2\<rparr>,
        \<lparr>item_order_id = StrV ''O3'', item_product_id = StrV ''P3'', item_quantity = 1\<rparr>,
        \<lparr>item_order_id = StrV ''O3'', item_product_id = StrV ''P1'', item_quantity = 1\<rparr>,
        \<lparr>item_order_id = StrV ''O3'', item_product_id = StrV ''P3'', item_quantity = 4\<rparr>],
     events_df =
       [\<lparr>ev_id = IntV 1, ev_customer_id = StrV ''B'', ev_product_id = StrV ''P1'',
         ev_event_type = ''view'', ev_ts = ''2024-03-01T09:00:00''\<rparr>,
        \<lparr>ev_id = IntV 2, ev_customer_id = StrV ''B'', ev_product_id = StrV ''P1'',
         ev_event_type = ''view'', ev_ts = ''2024-03-01T09:01:00''\<rparr>,
        \<lparr>ev_id = IntV 3, ev_customer_id = StrV ''B'', ev_product_id = StrV ''P2'',
         ev_event_type = ''view'', ev_ts = ''2024-03-01T09:02:00''\<rparr>,
        \<lparr>ev_id = IntV 4, ev_customer_id = StrV ''B'', ev_product_id = StrV ''P3'',
         ev_event_type = ''view'', ev_ts = ''2024-03-01T09:03:00''\<rparr>,
        \<lparr>ev_id = IntV 5, ev_customer_id = StrV ''B'', ev_product_id = StrV ''P2'',
         ev_event_type = ''click'', ev_ts = ''2024-03-01T09:04:00''\<rparr>,
        \<lparr>ev_id = IntV 6, ev_customer_id = StrV ''A'', ev_product_id = StrV ''P3'',
         ev_event_type = ''wishlist'', ev_ts = ''2024-03-01T09:05:00''\<rparr>]\<rparr>"

definition shop_graph :: graph where
  "shop_graph = etl shop empty_graph"

text \<open>Product \<open>p\<close> is in category \<open>cat\<close>.\<close>

definition in_category :: "graph \<Rightarrow> nat \<Rightarrow> nat \<Rightarrow> bool" where
  "in_category g p cat \<longleftrightarrow>
     has_label g p Product \<and> has_label g cat Category
     \<and> (\<exists>r \<in> set (rels g). rel_between IN_CATEGORY p cat r)"

text \<open>The rows that four optional matches of one customer multiply out to.\<close>

definition product_rows ::
  "string option \<Rightarrow> nat option list \<Rightarrow> nat option list \<Rightarrow> nat option list \<Rightarrow> nat option list
     \<Rightarrow> journey_row list" where
  "product_rows nm vs cls as pus =
     [\<lparr>j_name = nm, j_viewed = v, j_clicked = cl, j_added = a, j_purchased = pu\<rparr>.
        v \<leftarrow> vs, cl \<leftarrow> cls, a \<leftarrow> as, pu \<leftarrow> pus]"

text \<open>The merge keys of the nodes, and of the relationships that are not events, in the
  order of the store.\<close>

definition keys :: "graph \<Rightarrow> (label \<times> pval) list" where
  "keys g = map node_key (nodes g)"

definition rkeys :: "graph \<Rightarrow> (reltype \<times> nat \<times> nat) list" where
  "rkeys g = map rel_key [r \<leftarrow> rels g. \<not> is_event (rtype r)]"

text \<open>The relationships of type \<open>t\<close> from \<open>a\<close> to \<open>b\<close>.\<close>

definition between :: "graph \<Rightarrow> reltype \<Rightarrow> nat \<Rightarrow> nat \<Rightarrow> rel list" where
  "between g t a b = [r \<leftarrow> rels g. rel_between t a b r]"



text \<open>The first four tables of the load: the state in which the order items are loaded.\<close>

definition load_entities :: "tables \<Rightarrow> graph \<Rightarrow> graph" where
  "load_entities t g =
     fold load_order (orders_df t)
       (fold load_customer (customers_df t)
         (fold load_product (products_df t)
           (fold load_category (categories_df t) g)))"

text \<open>
  Three products with prices 10, 20 and 5, contained in 5, 5 and 2 of five orders.
\<close>

definition bestsellers :: tables where
  "bestsellers = \<lparr>
     customers_df =
       [\<lparr>cust_id = StrV ''A'', cust_name = ''Ann'', cust_join_date = ''2024-01-01''\<rparr>],
     categories_df = [\<lparr>cat_id = StrV ''K1'', cat_name = ''Books''\<rparr>],
     products_df =
       [\<lparr>prod_id = StrV ''P1'', prod_name = ''p1'', prod_category_id = StrV ''K1'',
         prod_price = 10\<rparr>,
        \<lparr>prod_id = StrV ''P2'', prod_name = ''p2'', prod_category_id = StrV ''K1'',
         prod_price = 20\<rparr>,
        \<lparr>prod_id = StrV ''P3'', prod_name = ''p3'', prod_category_id = StrV ''K1'',
         prod_price = 5\<rparr>],
     orders_df =
       [\<lparr>ord_id = StrV ''O1'', ord_customer_id = StrV ''A'', ord_ts = ''2024-02-01T10:00:00''\<rparr>,
        \<lparr>ord_id = StrV ''O2'', ord_customer_id = StrV ''A'', ord_ts = ''2024-02-02T10:00:00''\<rparr>,
        \<lparr>ord_id = StrV ''O3'', ord_customer_id = StrV ''A'', ord_ts = ''2024-02-03T10:00:00''\<rparr>,
        \<lparr>ord_id = StrV ''O4'', ord_customer_id = StrV ''A'', ord_ts = ''2024-02-04T10:00:00''\<rparr>,
        \<lparr>ord_id = StrV ''O5'', ord_customer_id = StrV ''A'', ord_ts = ''2024-02-05T10:00:00''\<rparr>],
     order_items_df =
       [\<lparr>item_order_id = StrV ''O1'', item_product_id = StrV ''P1'', item_quantity = 1\<rparr>,
        \<lparr>item_order_id = StrV ''O2'', item_product_id = StrV ''P1'', item_quantity = 1\<rparr>,
        \<lparr>item_order_id = StrV ''O3'', item_product_id = StrV ''P1'', item_quantity = 1\<rparr>,
        \<lparr>item_order_id = StrV ''O4'', item_product_id = StrV ''P1'', item_quantity = 1\<rparr>,
        \<lparr>item_order_id = StrV ''O5'', item_product_id = StrV ''P1'', item_quantity = 1\<rparr>,
        \<lparr>item_order_id = StrV ''O1'', item_product_id = StrV ''P2'', item_quantity = 1\<rparr>,
        \<lparr>item_order_id = StrV ''O2'', item_product_id = StrV ''P2'', item_quantity = 1\<rparr>,
        \<lparr>item_order_id = StrV ''O3'', item_product_id = StrV ''P2'', item_quantity = 1\<rparr>,
        \<lparr>item_order_id = StrV ''O4'', item_product_id = StrV ''P2'', item_quantity = 1\<rparr>,
        \<lparr>item_order_id = StrV ''O5'', item_product_id = StrV ''P2'', item_quantity = 1\<rparr>,
        \<lparr>item_order_id = StrV ''O1'', item_product_id = StrV ''P3'', item_quantity = 1\<rparr>,
        \<lparr>item_order_id = StrV ''O2'', item_product_id = StrV ''P3'', item_quantity = 1\<rparr>],
     events_df = []\<rparr>"

text \<open>
  The other customers that share a purchased product with customer \<open>c\<close>: Customer nodes
  with a different id that bought at least one product that \<open>c\<close> bought.
\<close>

definition overlapping :: "graph \<Rightarrow> nat \<Rightarrow> nat set" where
  "overlapping g c =
     {other. has_label g other Customer \<and> ident (nodes g ! other) \<noteq> ident (nodes g ! c)
             \<and> bought g other \<inter> bought g c \<noteq> {}}"

text \<open>The customers that the collaborative query keeps as neighbours.\<close>

definition neighbour_ids :: "graph \<Rightarrow> string \<Rightarrow> nat list" where
  "neighbour_ids g cid = map (\<lambda>row. fst (snd row)) (neighbours g cid)"

section \<open>Notions used for the repeated load\<close>

text \<open>
  A node statement of the loader is a merge on a key followed by a write to the merged
  nodes.  The key and the write of each of the four node tables:
\<close>

definition upsert :: "label \<Rightarrow> pval \<times> (node \<Rightarrow> node) \<Rightarrow> graph \<Rightarrow> graph" where
  "upsert l kf g = set_nodes l (fst kf) (snd kf) (merge_node l (fst kf) g)"

definition category_write :: "category_row \<Rightarrow> pval \<times> (node \<Rightarrow> node)" where
  "category_write row = (cat_id row, \<lambda>n. n\<lparr>name := Some (cat_name row)\<rparr>)"

definition product_write :: "product_row \<Rightarrow> pval \<times> (node \<Rightarrow> node)" where
  "product_write row =
     (prod_id row, \<lambda>n. n\<lparr>name := Some (prod_name row), price := Some (prod_price row)\<rparr>)"

definition customer_write :: "customer_row \<Rightarrow> pval \<times> (node \<Rightarrow> node)" where
  "customer_write row =
     (cust_id row,
      \<lambda>n. n\<lparr>name := Some (cust_name row), join_date := Some (cust_join_date row)\<rparr>)"

definition order_write :: "order_row \<Rightarrow> pval \<times> (node \<Rightarrow> node)" where
  "order_write row = (ord_id row, \<lambda>n. n\<lparr>ts := Some (ord_ts row)\<rparr>)"

text \<open>What the writes of a table, one after the other, do to one node of label \<open>l\<close>.\<close>

definition touch1 :: "label \<Rightarrow> pval \<times> (node \<Rightarrow> node) \<Rightarrow> node \<Rightarrow> node" where
  "touch1 l kf n = (if label n = l \<and> ident n = fst kf then snd kf n else n)"

definition touch :: "label \<Rightarrow> (pval \<times> (node \<Rightarrow> node)) list \<Rightarrow> node \<Rightarrow> node" where
  "touch l kfs n = fold (touch1 l) kfs n"

text \<open>The writes of one table keep the key of a node, and each overwrites the others.\<close>

definition table_writes :: "(pval \<times> (node \<Rightarrow> node)) list \<Rightarrow> bool" where
  "table_writes kfs \<longleftrightarrow>
     (\<forall>kf \<in> set kfs. (\<forall>n. node_key (snd kf n) = node_key n)
        \<and> (\<forall>kf' \<in> set kfs. \<forall>n. snd kf (snd kf' n) = snd kf n))"

text \<open>Every node of the graph already has what the writes of the table would give it.\<close>

definition settled :: "label \<Rightarrow> (pval \<times> (node \<Rightarrow> node)) list \<Rightarrow> graph \<Rightarrow> bool" where
  "settled l kfs g \<longleftrightarrow> (\<forall>n \<in> set (nodes g). touch l kfs n = n)"

text \<open>Graph \<open>g'\<close> has the keys of \<open>g\<close>, in place, and after them new keys only, with
  labels in \<open>ls\<close>.\<close>

definition adds :: "label set \<Rightarrow> graph \<Rightarrow> graph \<Rightarrow> bool" where
  "adds ls g g' \<longleftrightarrow>
     (\<exists>ks. keys g' = keys g @ ks \<and> (\<forall>k \<in> set ks. fst k \<in> ls \<and> k \<notin> set (keys g)))"

text \<open>The merge keys of all relationships.\<close>

definition relkeys :: "graph \<Rightarrow> (reltype \<times> nat \<times> nat) set" where
  "relkeys g = rel_key ` set (rels g)"

text \<open>Every node with the first key has a relationship of type \<open>t\<close> to every node with the
  second key.\<close>

definition linked :: "reltype \<Rightarrow> label \<times> pval \<Rightarrow> label \<times> pval \<Rightarrow> graph \<Rightarrow> bool" where
  "linked t k1 k2 g \<longleftrightarrow>
     (\<forall>a \<in> set (node_ids (fst k1) (snd k1) g). \<forall>b \<in> set (node_ids (fst k2) (snd k2) g).
        (t, a, b) \<in> relkeys g)"

text \<open>Graph \<open>g'\<close> is a later state of \<open>g\<close> in a load that added nodes of the labels
  \<open>ls\<close> only: keys and relationship keys have only grown.\<close>

definition later :: "label set \<Rightarrow> graph \<Rightarrow> graph \<Rightarrow> bool" where
  "later ls g g' \<longleftrightarrow> adds ls g g' \<and> relkeys g \<subseteq> relkeys g'"

text \<open>What the relationship part of a product row, an order row and an order-item row
  has established.\<close>

definition product_linked :: "product_row \<Rightarrow> graph \<Rightarrow> bool" where
  "product_linked row g \<longleftrightarrow>
     (Product, prod_id row) \<in> set (keys g)
     \<and> linked IN_CATEGORY (Product, prod_id row) (Category, prod_category_id row) g"

definition order_linked :: "order_row \<Rightarrow> graph \<Rightarrow> bool" where
  "order_linked row g \<longleftrightarrow>
     (Order, ord_id row) \<in> set (keys g)
     \<and> linked PLACED (Customer, ord_customer_id row) (Order, ord_id row) g"

definition item_linked :: "order_item_row \<Rightarrow> graph \<Rightarrow> bool" where
  "item_linked row g \<longleftrightarrow>
     linked CONTAINS (Order, item_order_id row) (Product, item_product_id row) g"

text \<open>An order-items row writes its quantity to the CONTAINS relationships between the
  nodes of its order id and the nodes of its product id.\<close>

definition targets :: "graph \<Rightarrow> order_item_row \<Rightarrow> rel \<Rightarrow> bool" where
  "targets g row r \<longleftrightarrow>
     rtype r = CONTAINS \<and> src r \<in> set (node_ids Order (item_order_id row) g)
     \<and> tgt r \<in> set (node_ids Product (item_product_id row) g)"

definition requant1 :: "graph \<Rightarrow> order_item_row \<Rightarrow> rel \<Rightarrow> rel" where
  "requant1 g row r = (if targets g row r then r\<lparr>quantity := Some (item_quantity row)\<rparr> else r)"

text \<open>What the quantities of a table, one after the other, do to one relationship.\<close>

definition requantify :: "graph \<Rightarrow> order_item_row list \<Rightarrow> rel \<Rightarrow> rel" where
  "requantify g rows r = fold (requant1 g) rows r"

definition quantities_settled :: "order_item_row list \<Rightarrow> graph \<Rightarrow> bool" where
  "quantities_settled rows g \<longleftrightarrow> (\<forall>r \<in> set (rels g). requantify g rows r = r)"

text \<open>A graph in which a load of the tables finds every key, every link and every value
  that it would write.\<close>

definition loaded :: "tables \<Rightarrow> graph \<Rightarrow> bool" where
  "loaded t g \<longleftrightarrow>
     (\<forall>row \<in> set (categories_df t). (Category, cat_id row) \<in> set (keys g))
     \<and> settled Category (map category_write (categories_df t)) g
     \<and> (\<forall>row \<in> set (products_df t). product_linked row g)
     \<and> settled Product (map product_write (products_df t)) g
     \<and> (\<forall>row \<in> set (customers_df t). (Customer, cust_id row) \<in> set (keys g))
     \<and> settled Customer (map customer_write (customers_df t)) g
     \<and> (\<forall>row \<in> set (orders_df t). order_linked row g)
     \<and> settled Order (map order_write (orders_df t)) g
     \<and> (\<forall>row \<in> set (order_items_df t). item_linked row g)
     \<and> quantities_settled (order_items_df t) g"

text \<open>The relationships that the events table creates in a graph with the nodes of \<open>g\<close>.\<close>

definition new_events :: "event_row list \<Rightarrow> graph \<Rightarrow> rel list" where
  "new_events rows g =
     concat (map (\<lambda>row. map (event_rel row)
                          [(c, p). c \<leftarrow> node_ids Customer (ev_customer_id row) g,
                                   p \<leftarrow> node_ids Product (ev_product_id row) g]) rows)"

text \<open>The event relationships, and the other relationships, of a graph.\<close>

definition event_rels :: "graph \<Rightarrow> rel list" where
  "event_rels g = [r \<leftarrow> rels g. is_event (rtype r)]"

definition entity_rels :: "graph \<Rightarrow> rel list" where
  "entity_rels g = [r \<leftarrow> rels g. \<not> is_event (rtype r)]"

section \<open>Event rows\<close>

lemma rels_fold_create:
  "rels (fold (\<lambda>cp. create_rel (f cp)) cps g) = rels g @ map f cps"
  by (induction cps arbitrary: g) (simp_all add: create_rel_def)

lemma nodes_fold_create:
  "nodes (fold (\<lambda>cp. create_rel (f cp)) cps g) = nodes g"
  by (induction cps arbitrary: g) (simp_all add: create_rel_def)

lemma rel_type_other:
  "s \<noteq> ''view'' \<Longrightarrow> s \<noteq> ''click'' \<Longrightarrow> s \<noteq> ''add_to_cart'' \<Longrightarrow> rel_type s = INTERACTED"
  by (simp add: rel_type_def event_type_map_def)

text \<open>
  Claim C7.  Loading an event row appends one relationship for every pair of a Customer
  node with the row's customer id and a Product node with the row's product id, and
  nothing else changes.  The type of each new relationship depends on the event type
  alone: \<^verbatim>\<open>view\<close> gives VIEWED, \<^verbatim>\<open>click\<close> gives CLICKED, \<^verbatim>\<open>add_to_cart\<close> gives
  ADDED_TO_CART and every other string gives INTERACTED.  Each new relationship carries
  the row's timestamp and the row's own id.
\<close>

theorem event_edge_mapping:
  "rel_type ''view'' = VIEWED \<and> rel_type ''click'' = CLICKED
   \<and> rel_type ''add_to_cart'' = ADDED_TO_CART
   \<and> (\<forall>s. s \<noteq> ''view'' \<and> s \<noteq> ''click'' \<and> s \<noteq> ''add_to_cart'' \<longrightarrow> rel_type s = INTERACTED)
   \<and> nodes (load_event row g) = nodes g
   \<and> (\<exists>new. rels (load_event row g) = rels g @ new
        \<and> map (\<lambda>r. (src r, tgt r)) new =
            [(c, p). c \<leftarrow> node_ids Customer (ev_customer_id row) g,
                     p \<leftarrow> node_ids Product (ev_product_id row) g]
        \<and> (\<forall>r \<in> set new. rtype r = rel_type (ev_event_type row)
              \<and> rel_ts r = Some (ev_ts row) \<and> event_id r = Some (ev_id row)))"
proof -
  let ?cps = "[(c, p). c \<leftarrow> node_ids Customer (ev_customer_id row) g,
                       p \<leftarrow> node_ids Product (ev_product_id row) g]"
  have fixed: "rel_type ''view'' = VIEWED" "rel_type ''click'' = CLICKED"
    "rel_type ''add_to_cart'' = ADDED_TO_CART"
    by (simp_all add: rel_type_def event_type_map_def)
  have other: "\<forall>s. s \<noteq> ''view'' \<and> s \<noteq> ''click'' \<and> s \<noteq> ''add_to_cart'' \<longrightarrow> rel_type s = INTERACTED"
    using rel_type_other by blast
  have n: "nodes (load_event row g) = nodes g"
    unfolding load_event_def by (rule nodes_fold_create)
  have r: "rels (load_event row g) = rels g @ map (event_rel row) ?cps"
    unfolding load_event_def by (rule rels_fold_create)
  have ends: "map (\<lambda>r. (src r, tgt r)) (map (event_rel row) ?cps) = ?cps"
    by (simp add: event_rel_def comp_def)
  have attrs: "\<forall>r \<in> set (map (event_rel row) ?cps). rtype r = rel_type (ev_event_type row)
              \<and> rel_ts r = Some (ev_ts row) \<and> event_id r = Some (ev_id row)"
    by (auto simp: event_rel_def)
  from r ends attrs have "\<exists>new. rels (load_event row g) = rels g @ new
        \<and> map (\<lambda>r. (src r, tgt r)) new = ?cps
        \<and> (\<forall>r \<in> set new. rtype r = rel_type (ev_event_type row)
              \<and> rel_ts r = Some (ev_ts row) \<and> event_id r = Some (ev_id row))"
    by blast
  with fixed other n show ?thesis by blast
qed

theorem event_edge_mapping_witness:
  "''wishlist'' \<noteq> ''view'' \<and> ''wishlist'' \<noteq> ''click'' \<and> ''wishlist'' \<noteq> ''add_to_cart''
   \<and> rel_type ''wishlist'' = INTERACTED
   \<and> (\<exists>r. rels (load_event (events_df shop ! 5) shop_graph) = rels shop_graph @ [r]
          \<and> rtype r = INTERACTED \<and> src r = 5 \<and> tgt r = 3
          \<and> rel_ts r = Some ''2024-03-01T09:05:00'' \<and> event_id r = Some (IntV 6))"
proof -
  let ?row = "events_df shop ! 5"
  have row: "ev_event_type ?row = ''wishlist''" "ev_ts ?row = ''2024-03-01T09:05:00''"
    "ev_id ?row = IntV 6"
    by (simp_all add: shop_def)
  have pairs: "[(c, p). c \<leftarrow> node_ids Customer (ev_customer_id ?row) shop_graph,
                        p \<leftarrow> node_ids Product (ev_product_id ?row) shop_graph] = [(5, 3)]"
    by code_simp
  from event_edge_mapping [of ?row shop_graph] obtain new where
    other: "\<forall>s. s \<noteq> ''view'' \<and> s \<noteq> ''click'' \<and> s \<noteq> ''add_to_cart'' \<longrightarrow> rel_type s = INTERACTED"
    and new: "rels (load_event ?row shop_graph) = rels shop_graph @ new"
    and ends: "map (\<lambda>r. (src r, tgt r)) new =
                 [(c, p). c \<leftarrow> node_ids Customer (ev_customer_id ?row) shop_graph,
                          p \<leftarrow> node_ids Product (ev_product_id ?row) shop_graph]"
    and attrs: "\<forall>r \<in> set new. rtype r = rel_type (ev_event_type ?row)
                  \<and> rel_ts r = Some (ev_ts ?row) \<and> event_id r = Some (ev_id ?row)"
    by blast
  have ne: "''wishlist'' \<noteq> ''view''" "''wishlist'' \<noteq> ''click''" "''wishlist'' \<noteq> ''add_to_cart''"
    by simp_all
  from other have "''wishlist'' \<noteq> ''view'' \<and> ''wishlist'' \<noteq> ''click'' \<and> ''wishlist'' \<noteq> ''add_to_cart''
      \<longrightarrow> rel_type ''wishlist'' = INTERACTED"
    by (rule spec)
  with ne have t: "rel_type ''wishlist'' = INTERACTED" by (elim impE) (intro conjI)
  from ends pairs have m: "map (\<lambda>r. (src r, tgt r)) new = [(5, 3)]"
    by (rule trans)
  then obtain r where r: "new = [r]" "src r = 5" "tgt r = 3"
    by (cases new) simp_all
  from attrs r(1) have "rtype r = rel_type (ev_event_type ?row)
      \<and> rel_ts r = Some (ev_ts ?row) \<and> event_id r = Some (ev_id ?row)"
    by simp
  then have a: "rtype r = INTERACTED" "rel_ts r = Some ''2024-03-01T09:05:00''"
    "event_id r = Some (IntV 6)"
    unfolding row t by simp_all
  from new r(1) have n: "rels (load_event ?row shop_graph) = rels shop_graph @ [r]"
    by (rule subst[rotated])
  from n a r(2,3) have "\<exists>r. rels (load_event ?row shop_graph) = rels shop_graph @ [r]
          \<and> rtype r = INTERACTED \<and> src r = 5 \<and> tgt r = 3
          \<and> rel_ts r = Some ''2024-03-01T09:05:00'' \<and> event_id r = Some (IntV 6)"
    by (intro exI[of _ r] conjI)
  with ne t show ?thesis by (intro conjI)
qed

section \<open>Limits\<close>

lemma limit_rows_nonneg:
  "0 \<le> n \<Longrightarrow> n < 2 ^ 63 \<Longrightarrow> limit_rows n xs = Inr (take (nat n) xs)"
  by (simp add: limit_rows_def)

lemma limit_rows_Inr:
  "limit_rows n xs = Inr ys \<Longrightarrow> 0 \<le> n \<and> n < 2 ^ 63 \<and> ys = take (nat n) xs"
  by (auto simp: limit_rows_def split: if_splits)


lemma set_order_by_rank: "set (order_by_rank rows) = set rows"
  by (simp add: order_by_rank_def)

lemma length_order_by_rank: "length (order_by_rank rows) = length rows"
  by (simp add: order_by_rank_def)




section \<open>Unknown ids\<close>

lemma single_Nil: "single [] = None"
  by (simp add: single_def)

lemma unknown_customer_collaborative:
  "node_ids Customer (StrV cid) g = [] \<Longrightarrow> collaborative_ranking g cid = []"
  by (simp add: collaborative_ranking_def collaborative_matches_def neighbours_def
      customer_products_def count_distinct_by_def order_by_rank_def)

lemma unknown_product_content:
  "node_ids Product (StrV pid) g = [] \<Longrightarrow> content_ranking g pid = []"
  by (simp add: content_ranking_def content_matches_def count_nonnull_by_def order_by_rank_def)

lemma unknown_product_co_purchase:
  "node_ids Product (StrV pid) g = [] \<Longrightarrow> co_purchase_ranking g pid = []"
  by (simp add: co_purchase_ranking_def co_purchase_matches_def count_by_def order_by_rank_def)

lemma unknown_customer_journey:
  "node_ids Customer (StrV cid) g = [] \<Longrightarrow> customer_journey g cid = Inl TypeError"
  by (simp add: customer_journey_def journey_records_def journey_matches_def single_def
      dict_of_def)

lemma unknown_id_recommendations:
  assumes "0 \<le> limit" and "limit < 2 ^ 63"
  shows "node_ids Customer (StrV cid) g = [] \<Longrightarrow>
           collaborative_recommendations g cid limit = Inr []"
    and "node_ids Product (StrV pid) g = [] \<Longrightarrow>
           content_based_recommendations g pid limit = Inr []"
    and "node_ids Product (StrV pid) g = [] \<Longrightarrow>
           co_purchase_recommendations g pid limit = Inr []"
  using assms
  by (simp_all add: collaborative_recommendations_def content_based_recommendations_def
      co_purchase_recommendations_def limit_rows_nonneg unknown_customer_collaborative
      unknown_product_content unknown_product_co_purchase)

text \<open>
  Claim C1.  An id that names no node gives the empty list in the collaborative, the
  content-based and the co-purchase query.  The customer-journey end point does not
  return an empty result: its statement produces no record, \<^verbatim>\<open>single()\<close> is
  \<^verbatim>\<open>None\<close> and \<^verbatim>\<open>dict(None)\<close> raises.  Evaluated on the shop for the id
  \<^verbatim>\<open>Z\<close>, which no customer and no product has.
\<close>

theorem customer_journey_unknown_id_raises:
  "node_ids Customer (StrV ''Z'') shop_graph = []
   \<and> customer_journey shop_graph ''Z'' = Inl TypeError
   \<and> collaborative_recommendations shop_graph ''Z'' 5 = Inr []
   \<and> content_based_recommendations shop_graph ''Z'' 5 = Inr []
   \<and> co_purchase_recommendations shop_graph ''Z'' 5 = Inr []"
  by code_simp

section \<open>Global statistics\<close>

lemma count_by_replicate: "ms \<noteq> [] \<Longrightarrow> count_by [row. row \<leftarrow> [x], m \<leftarrow> ms] = [(x, length ms)]"
proof -
  assume ne: "ms \<noteq> []"
  have e: "[row. row \<leftarrow> [x], m \<leftarrow> ms] = replicate (length ms) x"
    by (induction ms) simp_all
  have "remdups (replicate (Suc n) x) = [x]" for n
    by (induction n) simp_all
  from this[of "length ms - 1"] have r: "remdups (replicate (length ms) x) = [x]"
    using ne by simp
  have c: "count_list (replicate (length ms) x) x = length ms"
    by (induction ms) simp_all
  show ?thesis unfolding count_by_def e r using c by simp
qed

lemma match_count_single:
  "match_count [x] ms = (if ms = [] then [] else [(x, length ms)])"
  using count_by_replicate[of ms x] by (simp add: match_count_def count_by_def)

lemma match_count_Nil: "match_count [] ms = []"
  by (simp add: match_count_def count_by_def)

lemma stats_records_eq:
  "stats_records g =
     (if label_ids Product g = [] \<or> label_ids Order g = [] \<or> label_ids Category g = []
         \<or> rels g = [] then []
      else [\<lparr>customers = length (label_ids Customer g), products = length (label_ids Product g),
             orders = length (label_ids Order g), categories = length (label_ids Category g),
             relationships = length (rels g)\<rparr>])"
  by (simp add: stats_records_def match_count_single match_count_Nil)

lemma get_stats_eq:
  "get_stats g =
     (if label_ids Product g = [] \<or> label_ids Order g = [] \<or> label_ids Category g = []
         \<or> rels g = [] then Inl TypeError
      else Inr \<lparr>customers = length (label_ids Customer g), products = length (label_ids Product g),
             orders = length (label_ids Order g), categories = length (label_ids Category g),
             relationships = length (rels g)\<rparr>)"
  by (simp add: get_stats_def stats_records_eq single_def dict_of_def)

text \<open>
  Claim C8.  On a graph that has at least one Product, one Order, one Category and one
  relationship, the statistics are one record with the five counts
  (\<open>get_stats_eq\<close>).  On the empty graph the statement produces no record, and the end
  point raises instead of reporting five zeros.
\<close>

theorem get_stats_empty_graph_raises:
  "stats_records empty_graph = [] \<and> get_stats empty_graph = Inl TypeError"
  by code_simp

section \<open>Customer journey\<close>

lemma set_out_products: "set (out_products g t c) = reached g t c"
  by (auto simp: out_products_def reached_def rel_between_def)

lemma set_purchased: "set (purchased g c) = bought g c"
  by (auto simp: purchased_def bought_def rel_between_def)

lemma optional_not_Nil: "optional xs \<noteq> []"
  by (simp add: optional_def)

lemma Some_in_optional: "Some x \<in> set (optional xs) \<longleftrightarrow> x \<in> set xs"
  by (auto simp: optional_def)

lemma count_distinct_card: "count_distinct xs = card {x. Some x \<in> set xs}"
proof -
  have "set [x \<leftarrow> xs. x \<noteq> None] = Some ` {x. Some x \<in> set xs}"
    by (auto simp: image_iff)
  then have "card (set [x \<leftarrow> xs. x \<noteq> None]) = card {x. Some x \<in> set xs}"
    by (simp add: card_image)
  then show ?thesis
    by (simp add: count_distinct_def length_remdups_card_conv)
qed

lemma count_distinct_optional:
  "set col = set (optional xs) \<Longrightarrow> count_distinct col = card (set xs)"
  by (simp add: count_distinct_card Some_in_optional)

lemma remdups_constant: "xs \<noteq> [] \<Longrightarrow> set xs \<subseteq> {a} \<Longrightarrow> remdups xs = [a]"
proof (induction xs)
  case Nil
  then show ?case by simp
next
  case (Cons x xs)
  then have x: "x = a" by simp
  show ?case
  proof (cases "xs = []")
    case True
    then show ?thesis using x by simp
  next
    case False
    with Cons have r: "remdups xs = [a]" by simp
    from False Cons.prems have "a \<in> set xs" by (cases xs) auto
    with r x show ?thesis by simp
  qed
qed

lemma set_product_rows:
  "set (product_rows nm vs cls as pus) =
     {\<lparr>j_name = nm, j_viewed = v, j_clicked = cl, j_added = a, j_purchased = pu\<rparr> | v cl a pu.
        v \<in> set vs \<and> cl \<in> set cls \<and> a \<in> set as \<and> pu \<in> set pus}"
  unfolding product_rows_def by auto

lemma product_rows_columns:
  assumes "vs \<noteq> []" "cls \<noteq> []" "as \<noteq> []" "pus \<noteq> []"
  shows "set (map j_viewed (product_rows nm vs cls as pus)) = set vs"
    and "set (map j_clicked (product_rows nm vs cls as pus)) = set cls"
    and "set (map j_added (product_rows nm vs cls as pus)) = set as"
    and "set (map j_purchased (product_rows nm vs cls as pus)) = set pus"
    and "product_rows nm vs cls as pus \<noteq> []"
    and "\<forall>row \<in> set (product_rows nm vs cls as pus). j_name row = nm"
proof -
  from assms(1) obtain v where v: "v \<in> set vs" by (cases vs) auto
  from assms(2) obtain cl where cl: "cl \<in> set cls" by (cases cls) auto
  from assms(3) obtain a where a: "a \<in> set as" by (cases as) auto
  from assms(4) obtain pu where pu: "pu \<in> set pus" by (cases pus) auto
  let ?S = "set (product_rows nm vs cls as pus)"
  have mk: "\<lparr>j_name = nm, j_viewed = v', j_clicked = cl', j_added = a', j_purchased = pu'\<rparr> \<in> ?S"
    if "v' \<in> set vs" "cl' \<in> set cls" "a' \<in> set as" "pu' \<in> set pus" for v' cl' a' pu'
    unfolding set_product_rows using that by blast
  have dest: "j_viewed row \<in> set vs \<and> j_clicked row \<in> set cls \<and> j_added row \<in> set as
      \<and> j_purchased row \<in> set pus \<and> j_name row = nm" if "row \<in> ?S" for row
    using that unfolding set_product_rows by auto
  show "set (map j_viewed (product_rows nm vs cls as pus)) = set vs"
  proof (intro set_eqI iffI)
    fix x assume "x \<in> set (map j_viewed (product_rows nm vs cls as pus))"
    then show "x \<in> set vs" using dest by auto
  next
    fix x assume "x \<in> set vs"
    from mk[OF this cl a pu] show "x \<in> set (map j_viewed (product_rows nm vs cls as pus))"
      by (metis image_eqI journey_row.select_convs(2) set_map)
  qed
  show "set (map j_clicked (product_rows nm vs cls as pus)) = set cls"
  proof (intro set_eqI iffI)
    fix x assume "x \<in> set (map j_clicked (product_rows nm vs cls as pus))"
    then show "x \<in> set cls" using dest by auto
  next
    fix x assume "x \<in> set cls"
    from mk[OF v this a pu] show "x \<in> set (map j_clicked (product_rows nm vs cls as pus))"
      by (metis image_eqI journey_row.select_convs(3) set_map)
  qed
  show "set (map j_added (product_rows nm vs cls as pus)) = set as"
  proof (intro set_eqI iffI)
    fix x assume "x \<in> set (map j_added (product_rows nm vs cls as pus))"
    then show "x \<in> set as" using dest by auto
  next
    fix x assume "x \<in> set as"
    from mk[OF v cl this pu] show "x \<in> set (map j_added (product_rows nm vs cls as pus))"
      by (metis image_eqI journey_row.select_convs(4) set_map)
  qed
  show "set (map j_purchased (product_rows nm vs cls as pus)) = set pus"
  proof (intro set_eqI iffI)
    fix x assume "x \<in> set (map j_purchased (product_rows nm vs cls as pus))"
    then show "x \<in> set pus" using dest by auto
  next
    fix x assume "x \<in> set pus"
    from mk[OF v cl a this] show "x \<in> set (map j_purchased (product_rows nm vs cls as pus))"
      by (metis image_eqI journey_row.select_convs(5) set_map)
  qed
  from mk[OF v cl a pu] show "product_rows nm vs cls as pus \<noteq> []"
    by (metis empty_iff empty_set)
  show "\<forall>row \<in> set (product_rows nm vs cls as pus). j_name row = nm"
    using dest by blast
qed

lemma journey_matches_single:
  "node_ids Customer (StrV cid) g = [c] \<Longrightarrow>
   journey_matches g cid =
     product_rows (name (nodes g ! c)) (optional (out_products g VIEWED c))
       (optional (out_products g CLICKED c)) (optional (out_products g ADDED_TO_CART c))
       (optional (purchased g c))"
  by (simp add: journey_matches_def product_rows_def)

text \<open>
  Claim C5.  For a customer id that names one Customer node, the journey query returns one
  record.  Its four counts are the numbers of distinct Product nodes reached over VIEWED,
  over CLICKED, over ADDED_TO_CART and over PLACED then CONTAINS.  Each count is that of
  its own relationship type alone: the rows that the four optional matches multiply out
  do not change it, and a product may be counted in several of them.  The witness is Bob
  in the shop, with 3 products viewed, 1 clicked, none added and 2 purchased; the product
  he clicked is also one he viewed.
\<close>

theorem journey_counts_independent:
  assumes "node_ids Customer (StrV cid) g = [c]"
  shows "customer_journey g cid =
           Inr \<lparr>customer_name = name (nodes g ! c),
                views = card (reached g VIEWED c),
                clicks = card (reached g CLICKED c),
                cart_additions = card (reached g ADDED_TO_CART c),
                purchases = card (bought g c)\<rparr>"
proof -
  let ?nm = "name (nodes g ! c)"
  let ?vs = "optional (out_products g VIEWED c)"
  let ?cls = "optional (out_products g CLICKED c)"
  let ?as = "optional (out_products g ADDED_TO_CART c)"
  let ?pus = "optional (purchased g c)"
  let ?rows = "product_rows ?nm ?vs ?cls ?as ?pus"
  have rows: "journey_matches g cid = ?rows"
    using assms by (rule journey_matches_single)
  note cols = product_rows_columns [of ?vs ?cls ?as ?pus ?nm,
      OF optional_not_Nil optional_not_Nil optional_not_Nil optional_not_Nil]
  have names: "remdups (map j_name ?rows) = [?nm]"
  proof (rule remdups_constant)
    show "map j_name ?rows \<noteq> []" using cols(5) by simp
    show "set (map j_name ?rows) \<subseteq> {?nm}" using cols(6) by auto
  qed
  have grp: "[row \<leftarrow> ?rows. j_name row = ?nm] = ?rows"
    using cols(6) by (simp add: filter_id_conv)
  have v: "count_distinct (map j_viewed ?rows) = card (reached g VIEWED c)"
    using count_distinct_optional [OF cols(1)] by (simp add: set_out_products)
  have cl: "count_distinct (map j_clicked ?rows) = card (reached g CLICKED c)"
    using count_distinct_optional [OF cols(2)] by (simp add: set_out_products)
  have a: "count_distinct (map j_added ?rows) = card (reached g ADDED_TO_CART c)"
    using count_distinct_optional [OF cols(3)] by (simp add: set_out_products)
  have pu: "count_distinct (map j_purchased ?rows) = card (bought g c)"
    using count_distinct_optional [OF cols(4)] by (simp add: set_purchased)
  have "journey_records g cid =
          [\<lparr>customer_name = ?nm, views = card (reached g VIEWED c),
            clicks = card (reached g CLICKED c),
            cart_additions = card (reached g ADDED_TO_CART c),
            purchases = card (bought g c)\<rparr>]"
    unfolding journey_records_def rows Let_def names by (simp only: list.map grp v cl a pu)
  then show ?thesis
    by (simp add: customer_journey_def single_def dict_of_def)
qed

theorem journey_counts_independent_witness:
  "node_ids Customer (StrV ''B'') shop_graph = [6]
   \<and> customer_journey shop_graph ''B'' =
       Inr \<lparr>customer_name = Some ''Bob'', views = 3, clicks = 1, cart_additions = 0,
            purchases = 2\<rparr>
   \<and> card (reached shop_graph VIEWED 6) = 3 \<and> card (reached shop_graph CLICKED 6) = 1
   \<and> card (reached shop_graph ADDED_TO_CART 6) = 0 \<and> card (bought shop_graph 6) = 2
   \<and> reached shop_graph CLICKED 6 \<subseteq> reached shop_graph VIEWED 6"
proof -
  have n: "node_ids Customer (StrV ''B'') shop_graph = [6]"
    by code_simp
  have j: "customer_journey shop_graph ''B'' =
       Inr \<lparr>customer_name = Some ''Bob'', views = 3, clicks = 1, cart_additions = 0,
            purchases = 2\<rparr>"
    by code_simp
  have s: "set (out_products shop_graph CLICKED 6) \<subseteq> set (out_products shop_graph VIEWED 6)"
    by code_simp
  from journey_counts_independent [OF n] j
  have "card (reached shop_graph VIEWED 6) = 3 \<and> card (reached shop_graph CLICKED 6) = 1
   \<and> card (reached shop_graph ADDED_TO_CART 6) = 0 \<and> card (bought shop_graph 6) = 2"
    by simp
  with n j s show ?thesis by (simp add: set_out_products)
qed

section \<open>Products without orders\<close>

lemma set_orders_of: "set (orders_of g p) = containing_orders g p"
  by (auto simp: orders_of_def containing_orders_def rel_between_def)

lemma popular_matches_iff:
  "p \<in> set (popular_matches g) \<longleftrightarrow> has_label g p Product \<and> containing_orders g p \<noteq> {}"
  by (auto simp: popular_matches_def containing_orders_def rel_between_def)

lemma in_count_by: "xc \<in> set (count_by xs) \<longleftrightarrow> fst xc \<in> set xs \<and> snd xc = count_list xs (fst xc)"
  by (cases xc) (auto simp: count_by_def)

lemma count_list_pos: "x \<in> set xs \<Longrightarrow> 1 \<le> count_list xs x"
  using count_list_0_iff [of xs x] by (cases "count_list xs x") simp_all

lemma popular_ranking_row:
  assumes "row \<in> set (popular_ranking g)"
  shows "1 \<le> row_count row \<and>
         (\<exists>p. has_label g p Product \<and> row = ranked_row_of g (p, row_count row)
              \<and> containing_orders g p \<noteq> {})"
proof -
  from assms obtain pc where pc: "pc \<in> set (count_by (popular_matches g))"
    and row: "row = ranked_row_of g pc"
    by (auto simp: popular_ranking_def set_order_by_rank)
  from pc have m: "fst pc \<in> set (popular_matches g)"
    and c: "snd pc = count_list (popular_matches g) (fst pc)"
    by (simp_all add: in_count_by)
  have rc: "row_count row = snd pc"
    by (simp add: row ranked_row_of_def)
  have "1 \<le> row_count row"
    using count_list_pos [OF m] rc c by simp
  moreover have "row = ranked_row_of g (fst pc, row_count row)"
    by (simp add: row rc ranked_row_of_def)
  ultimately show ?thesis
    using m popular_matches_iff by blast
qed

lemma content_matches_iff:
  "(rec, od) \<in> set (content_matches g pid) \<longleftrightarrow>
     (\<exists>p \<in> set (node_ids Product (StrV pid) g). \<exists>r1 \<in> set (rels g). \<exists>r2 \<in> set (rels g).
        rtype r1 = IN_CATEGORY \<and> src r1 = p \<and> has_label g (tgt r1) Category
        \<and> rtype r2 = IN_CATEGORY \<and> tgt r2 = tgt r1 \<and> has_label g (src r2) Product
        \<and> ident (nodes g ! src r2) \<noteq> ident (nodes g ! p)
        \<and> rec = src r2 \<and> od \<in> set (optional (orders_of g (src r2))))"
  unfolding content_matches_def by auto

lemma content_matches_zero:
  assumes p: "p \<in> set (node_ids Product (StrV pid) g)"
    and pc: "in_category g p cat" and rc: "in_category g rec cat"
    and ne: "ident (nodes g ! rec) \<noteq> ident (nodes g ! p)"
    and no: "containing_orders g rec = {}"
  shows "(rec, None) \<in> set (content_matches g pid)"
proof -
  from pc obtain r1 where r1: "r1 \<in> set (rels g)" "rtype r1 = IN_CATEGORY" "src r1 = p"
    "tgt r1 = cat" "has_label g cat Category"
    by (auto simp: in_category_def rel_between_def)
  from rc obtain r2 where r2: "r2 \<in> set (rels g)" "rtype r2 = IN_CATEGORY" "src r2 = rec"
    "tgt r2 = cat" "has_label g rec Product"
    by (auto simp: in_category_def rel_between_def)
  from no have "orders_of g rec = []"
    using set_orders_of [of g rec] by simp
  then have o: "None \<in> set (optional (orders_of g (src r2)))"
    by (simp add: optional_def r2(3))
  have "rtype r1 = IN_CATEGORY \<and> src r1 = p \<and> has_label g (tgt r1) Category
        \<and> rtype r2 = IN_CATEGORY \<and> tgt r2 = tgt r1 \<and> has_label g (src r2) Product
        \<and> ident (nodes g ! src r2) \<noteq> ident (nodes g ! p)
        \<and> rec = src r2 \<and> None \<in> set (optional (orders_of g (src r2)))"
    using r1 r2 ne o by simp
  with p r1(1) r2(1) show ?thesis
    unfolding content_matches_iff by blast
qed

lemma content_matches_snd:
  "(rec, od) \<in> set (content_matches g pid) \<Longrightarrow> od \<in> set (optional (orders_of g rec))"
  unfolding content_matches_iff by blast

lemma content_ranking_zero:
  assumes p: "p \<in> set (node_ids Product (StrV pid) g)"
    and pc: "in_category g p cat" and rc: "in_category g rec cat"
    and ne: "ident (nodes g ! rec) \<noteq> ident (nodes g ! p)"
    and no: "containing_orders g rec = {}"
  shows "ranked_row_of g (rec, 0) \<in> set (content_ranking g pid)"
proof -
  let ?ms = "content_matches g pid"
  have m: "(rec, None) \<in> set ?ms"
    using assms by (rule content_matches_zero)
  from no have e: "orders_of g rec = []"
    using set_orders_of [of g rec] by simp
  have "[xy \<leftarrow> ?ms. fst xy = rec \<and> snd xy \<noteq> None] = []"
  proof (rule filter_False, intro ballI)
    fix xy assume "xy \<in> set ?ms"
    then have "(fst xy, snd xy) \<in> set ?ms" by simp
    from content_matches_snd [OF this] show "\<not> (fst xy = rec \<and> snd xy \<noteq> None)"
      using e by (auto simp: optional_def)
  qed
  moreover from m have "rec \<in> set (remdups (map fst ?ms))"
    by force
  ultimately have "(rec, 0) \<in> set (count_nonnull_by ?ms)"
    by (auto simp: count_nonnull_by_def image_iff)
  then show ?thesis
    by (simp add: content_ranking_def set_order_by_rank)
qed

text \<open>
  Claim C10.  Every record of the popular-products query has an order count of at least 1
  and belongs to a Product node that some Order contains: the query starts from the
  CONTAINS relationships.  The content-based query starts from the category and matches
  the orders optionally: a product of the same category that no order contains is in its
  ranking with popularity 0, and for a limit from 0 to below \<open>2 ^ 63\<close> the query returns
  the first \<open>limit\<close> records of that ranking.
\<close>

theorem popular_needs_order_content_does_not:
  "(\<forall>rows. popular_products g limit = Inr rows \<longrightarrow>
      (\<forall>row \<in> set rows. 1 \<le> row_count row
         \<and> (\<exists>p. has_label g p Product \<and> row = ranked_row_of g (p, row_count row)
                \<and> containing_orders g p \<noteq> {})))
   \<and> (\<forall>p cat rec. p \<in> set (node_ids Product (StrV pid) g) \<and> in_category g p cat
         \<and> in_category g rec cat \<and> ident (nodes g ! rec) \<noteq> ident (nodes g ! p)
         \<and> containing_orders g rec = {}
         \<longrightarrow> ranked_row_of g (rec, 0) \<in> set (content_ranking g pid))
   \<and> (0 \<le> limit \<and> limit < 2 ^ 63 \<longrightarrow>
        content_based_recommendations g pid limit = Inr (take (nat limit) (content_ranking g pid)))"
proof (intro conjI allI impI ballI)
  fix rows row
  assume "popular_products g limit = Inr rows" and r: "row \<in> set rows"
  then have "rows = take (nat limit) (popular_ranking g)"
    by (auto simp: popular_products_def dest: limit_rows_Inr)
  with r have "row \<in> set (popular_ranking g)"
    by (auto dest: in_set_takeD)
  from popular_ranking_row [OF this]
  show "1 \<le> row_count row"
    and "\<exists>p. has_label g p Product \<and> row = ranked_row_of g (p, row_count row)
              \<and> containing_orders g p \<noteq> {}"
    by simp_all
next
  fix p cat rec
  assume "p \<in> set (node_ids Product (StrV pid) g) \<and> in_category g p cat
         \<and> in_category g rec cat \<and> ident (nodes g ! rec) \<noteq> ident (nodes g ! p)
         \<and> containing_orders g rec = {}"
  then show "ranked_row_of g (rec, 0) \<in> set (content_ranking g pid)"
    using content_ranking_zero by blast
next
  assume "0 \<le> limit \<and> limit < 2 ^ 63"
  then show "content_based_recommendations g pid limit = Inr (take (nat limit) (content_ranking g pid))"
    by (simp add: content_based_recommendations_def limit_rows_nonneg)
qed

theorem popular_needs_order_content_does_not_witness:
  "(\<exists>rows. popular_products shop_graph 5 = Inr rows \<and> rows \<noteq> []
       \<and> (\<forall>row \<in> set rows. 1 \<le> row_count row))
   \<and> 1 \<in> set (node_ids Product (StrV ''P1'') shop_graph)
   \<and> in_category shop_graph 1 0 \<and> in_category shop_graph 4 0
   \<and> ident (nodes shop_graph ! 4) \<noteq> ident (nodes shop_graph ! 1)
   \<and> containing_orders shop_graph 4 = {}
   \<and> ranked_row_of shop_graph (4, 0) \<in> set (content_ranking shop_graph ''P1'')
   \<and> content_based_recommendations shop_graph ''P1'' 5
       = Inr (take (nat 5) (content_ranking shop_graph ''P1''))"
proof -
  note inst = popular_needs_order_content_does_not [of shop_graph 5 "''P1''"]
  have h1: "1 \<in> set (node_ids Product (StrV ''P1'') shop_graph)"
    by code_simp
  have h2: "in_category shop_graph 1 0"
    by code_simp
  have h3: "in_category shop_graph 4 0"
    by code_simp
  have h4: "ident (nodes shop_graph ! 4) \<noteq> ident (nodes shop_graph ! 1)"
    by code_simp
  have "orders_of shop_graph 4 = []"
    by code_simp
  then have h5: "containing_orders shop_graph 4 = {}"
    using set_orders_of [of shop_graph 4] by simp
  have pl: "popular_products shop_graph 5 = Inr (take (nat 5) (popular_ranking shop_graph))"
    by (simp add: popular_products_def limit_rows_def)
  have ne: "take (nat 5) (popular_ranking shop_graph) \<noteq> []"
    by code_simp
  from inst pl have "\<forall>row \<in> set (take (nat 5) (popular_ranking shop_graph)). 1 \<le> row_count row"
    by blast
  with pl ne have a: "\<exists>rows. popular_products shop_graph 5 = Inr rows \<and> rows \<noteq> []
       \<and> (\<forall>row \<in> set rows. 1 \<le> row_count row)"
    by blast
  from inst h1 h2 h3 h4 h5
  have b: "ranked_row_of shop_graph (4, 0) \<in> set (content_ranking shop_graph ''P1'')"
    by blast
  have "(0::int) \<le> 5 \<and> (5::int) < 2 ^ 63" by simp
  with inst have c: "content_based_recommendations shop_graph ''P1'' 5
       = Inr (take (nat 5) (content_ranking shop_graph ''P1''))"
    by blast
  from a h1 h2 h3 h4 h5 b c show ?thesis
    by (intro conjI)
qed

section \<open>What the loader keeps\<close>

subsection \<open>Nodes and relationships of the primitives\<close>

lemma nodes_merge_rel [simp]: "nodes (merge_rel t ab g) = nodes g"
  by (simp add: merge_rel_def)

lemma nodes_set_rels [simp]: "nodes (set_rels t ab f g) = nodes g"
  by (simp add: set_rels_def)

lemma nodes_create_rel [simp]: "nodes (create_rel r g) = nodes g"
  by (simp add: create_rel_def)

lemma rels_merge_node [simp]: "rels (merge_node l k g) = rels g"
  by (simp add: merge_node_def)

lemma rels_set_nodes [simp]: "rels (set_nodes l k f g) = rels g"
  by (simp add: set_nodes_def)

lemma nodes_fold_merge_rel [simp]: "nodes (fold (merge_rel t) ps g) = nodes g"
  by (induction ps arbitrary: g) simp_all

lemma keys_cong: "nodes g = nodes g' \<Longrightarrow> keys g = keys g'"
  by (simp add: keys_def)

lemma length_keys [simp]: "length (keys g) = length (nodes g)"
  by (simp add: keys_def)

lemma node_ids_keys:
  "node_ids l k g = [i \<leftarrow> [0..<length (keys g)]. keys g ! i = (l, k)]"
  unfolding node_ids_def keys_def
  by (rule filter_cong) (auto simp: node_key_def)

lemma has_label_keys: "has_label g i l \<longleftrightarrow> i < length (keys g) \<and> fst (keys g ! i) = l"
  by (auto simp: has_label_def keys_def node_key_def)

lemma node_ids_cong: "keys g = keys g' \<Longrightarrow> node_ids l k g = node_ids l k g'"
  by (simp add: node_ids_keys)

lemma has_label_cong: "keys g = keys g' \<Longrightarrow> has_label g i l = has_label g' i l"
  by (simp add: has_label_keys)

lemma set_node_ids: "set (node_ids l k g) = {i. i < length (keys g) \<and> keys g ! i = (l, k)}"
  by (auto simp: node_ids_keys)

lemma node_ids_Nil_iff: "node_ids l k g = [] \<longleftrightarrow> (l, k) \<notin> set (keys g)"
proof -
  have "node_ids l k g = [] \<longleftrightarrow> set (node_ids l k g) = {}" by simp
  also have "\<dots> \<longleftrightarrow> (l, k) \<notin> set (keys g)"
    unfolding set_node_ids by (auto simp: in_set_conv_nth)
  finally show ?thesis .
qed

lemma distinct_node_ids: "distinct (node_ids l k g)"
  by (simp add: node_ids_def)

lemma node_ids_label: "i \<in> set (node_ids l k g) \<Longrightarrow> has_label g i l \<and> ident (nodes g ! i) = k"
  by (auto simp: node_ids_def has_label_def)


subsection \<open>Node keys\<close>

lemma keys_set_nodes:
  "(\<And>n. node_key (f n) = node_key n) \<Longrightarrow> keys (set_nodes l k f g) = keys g"
  by (simp add: keys_def set_nodes_def)

lemma keys_merge_node:
  "keys (merge_node l k g) = (if (l, k) \<in> set (keys g) then keys g else keys g @ [(l, k)])"
  by (simp add: merge_node_def node_ids_Nil_iff) (simp add: keys_def new_node_def node_key_def)

lemma keys_upsert:
  "(\<And>n. node_key (f n) = node_key n) \<Longrightarrow>
   keys (set_nodes l k f (merge_node l k g)) =
     (if (l, k) \<in> set (keys g) then keys g else keys g @ [(l, k)])"
  by (simp add: keys_set_nodes keys_merge_node)

lemma keys_load_category:
  "keys (load_category row g) =
     (if (Category, cat_id row) \<in> set (keys g) then keys g
      else keys g @ [(Category, cat_id row)])"
  unfolding load_category_def by (rule keys_upsert) (simp add: node_key_def)

lemma keys_load_customer:
  "keys (load_customer row g) =
     (if (Customer, cust_id row) \<in> set (keys g) then keys g
      else keys g @ [(Customer, cust_id row)])"
  unfolding load_customer_def by (rule keys_upsert) (simp add: node_key_def)

lemma keys_load_product:
  "keys (load_product row g) =
     (if (Product, prod_id row) \<in> set (keys g) then keys g
      else keys g @ [(Product, prod_id row)])"
proof -
  have "keys (load_product row g) =
          keys (set_nodes Product (prod_id row)
                 (\<lambda>n. n\<lparr>name := Some (prod_name row), price := Some (prod_price row)\<rparr>)
                 (merge_node Product (prod_id row) g))"
    by (simp add: load_product_def Let_def keys_def)
  also have "\<dots> = (if (Product, prod_id row) \<in> set (keys g) then keys g
      else keys g @ [(Product, prod_id row)])"
    by (rule keys_upsert) (simp add: node_key_def)
  finally show ?thesis .
qed

lemma keys_load_order:
  "keys (load_order row g) =
     (if (Order, ord_id row) \<in> set (keys g) then keys g
      else keys g @ [(Order, ord_id row)])"
proof -
  have "keys (load_order row g) =
          keys (set_nodes Order (ord_id row) (\<lambda>n. n\<lparr>ts := Some (ord_ts row)\<rparr>)
                 (merge_node Order (ord_id row) g))"
    by (simp add: load_order_def Let_def keys_def)
  also have "\<dots> = (if (Order, ord_id row) \<in> set (keys g) then keys g
      else keys g @ [(Order, ord_id row)])"
    by (rule keys_upsert) (simp add: node_key_def)
  finally show ?thesis .
qed

lemma nodes_fold_set_merge [simp]:
  "nodes (fold (\<lambda>ab g'. set_rels t ab f (merge_rel t ab g')) ps g) = nodes g"
  by (induction ps arbitrary: g) simp_all

lemma nodes_load_order_item [simp]: "nodes (load_order_item row g) = nodes g"
  by (simp add: load_order_item_def)

lemma nodes_load_event [simp]: "nodes (load_event row g) = nodes g"
  unfolding load_event_def by (rule nodes_fold_create)

lemma nodes_fold_load_order_item [simp]: "nodes (fold load_order_item rows g) = nodes g"
  by (induction rows arbitrary: g) simp_all

lemma nodes_fold_load_event [simp]: "nodes (fold load_event rows g) = nodes g"
  by (induction rows arbitrary: g) simp_all

lemma fold_preserves: "(\<And>x g. P g \<Longrightarrow> P (f x g)) \<Longrightarrow> P g \<Longrightarrow> P (fold f xs g)"
  by (induction xs arbitrary: g) simp_all

lemma unique_nodes_keys: "unique_nodes g \<longleftrightarrow> distinct (keys g)"
  by (simp add: unique_nodes_def keys_def)

lemma unique_nodes_load_category: "unique_nodes g \<Longrightarrow> unique_nodes (load_category row g)"
  by (simp add: unique_nodes_keys keys_load_category)

lemma unique_nodes_load_product: "unique_nodes g \<Longrightarrow> unique_nodes (load_product row g)"
  by (simp add: unique_nodes_keys keys_load_product)

lemma unique_nodes_load_customer: "unique_nodes g \<Longrightarrow> unique_nodes (load_customer row g)"
  by (simp add: unique_nodes_keys keys_load_customer)

lemma unique_nodes_load_order: "unique_nodes g \<Longrightarrow> unique_nodes (load_order row g)"
  by (simp add: unique_nodes_keys keys_load_order)

lemma unique_nodes_load_order_item: "unique_nodes g \<Longrightarrow> unique_nodes (load_order_item row g)"
  by (simp add: unique_nodes_def)

lemma unique_nodes_load_event: "unique_nodes g \<Longrightarrow> unique_nodes (load_event row g)"
  by (simp add: unique_nodes_def)

lemma unique_nodes_etl: "unique_nodes g \<Longrightarrow> unique_nodes (etl t g)"
  unfolding etl_def
  by (intro fold_preserves [where P = unique_nodes] unique_nodes_load_category
      unique_nodes_load_product unique_nodes_load_customer unique_nodes_load_order
      unique_nodes_load_order_item unique_nodes_load_event)

subsection \<open>Relationship keys\<close>

lemma is_event_rel_type: "is_event (rel_type s)"
  by (simp add: rel_type_def event_type_map_def is_event_def)

lemma rkeys_cong: "rels g = rels g' \<Longrightarrow> rkeys g = rkeys g'"
  by (simp add: rkeys_def)

lemma in_rkeys_iff:
  "\<not> is_event t \<Longrightarrow> (t, a, b) \<in> set (rkeys g) \<longleftrightarrow> (\<exists>r \<in> set (rels g). rel_between t a b r)"
  by (auto simp: rkeys_def rel_key_def rel_between_def image_iff)

lemma rkeys_merge_rel:
  "\<not> is_event t \<Longrightarrow>
   rkeys (merge_rel t ab g) =
     (if (t, fst ab, snd ab) \<in> set (rkeys g) then rkeys g else rkeys g @ [(t, fst ab, snd ab)])"
  by (simp add: merge_rel_def in_rkeys_iff [symmetric])
     (simp add: rkeys_def new_rel_def rel_key_def)

lemma rkeys_set_rels:
  "(\<And>r. rel_key (f r) = rel_key r) \<Longrightarrow> rkeys (set_rels t ab f g) = rkeys g"
proof -
  assume k: "\<And>r. rel_key (f r) = rel_key r"
  then have t: "rtype (f r) = rtype r" for r
    using k [of r] by (simp add: rel_key_def)
  let ?h = "\<lambda>r. if rel_between t (fst ab) (snd ab) r then f r else r"
  have "[r \<leftarrow> map ?h (rels g). \<not> is_event (rtype r)]
        = map ?h [r \<leftarrow> rels g. \<not> is_event (rtype r)]"
    by (simp add: filter_map comp_def t if_distrib [of rtype] cong: if_cong)
  then show ?thesis
    by (simp add: rkeys_def set_rels_def comp_def k if_distrib [of rel_key] cong: if_cong)
qed

lemma rkeys_create_rel: "is_event (rtype r) \<Longrightarrow> rkeys (create_rel r g) = rkeys g"
  by (simp add: rkeys_def create_rel_def)

lemma unique_rels_rkeys: "unique_rels g \<longleftrightarrow> distinct (rkeys g)"
  by (simp add: unique_rels_def rkeys_def)

lemma unique_rels_merge_rel:
  "\<not> is_event t \<Longrightarrow> unique_rels g \<Longrightarrow> unique_rels (merge_rel t ab g)"
  by (simp add: unique_rels_rkeys rkeys_merge_rel)

lemma unique_rels_fold_merge_rel:
  "\<not> is_event t \<Longrightarrow> unique_rels g \<Longrightarrow> unique_rels (fold (merge_rel t) ps g)"
  by (rule fold_preserves [where P = unique_rels]) (rule unique_rels_merge_rel)

lemma unique_rels_nodes_only: "rels g' = rels g \<Longrightarrow> unique_rels g \<Longrightarrow> unique_rels g'"
  by (simp add: unique_rels_def)

lemma unique_rels_load_category: "unique_rels g \<Longrightarrow> unique_rels (load_category row g)"
  by (rule unique_rels_nodes_only [of _ g]) (simp_all add: load_category_def)

lemma unique_rels_load_customer: "unique_rels g \<Longrightarrow> unique_rels (load_customer row g)"
  by (rule unique_rels_nodes_only [of _ g]) (simp_all add: load_customer_def)

lemma unique_rels_load_product: "unique_rels g \<Longrightarrow> unique_rels (load_product row g)"
  unfolding load_product_def Let_def
  by (rule unique_rels_fold_merge_rel, simp add: is_event_def)
     (rule unique_rels_nodes_only [of _ g], simp_all)

lemma unique_rels_load_order: "unique_rels g \<Longrightarrow> unique_rels (load_order row g)"
  unfolding load_order_def Let_def
  by (rule unique_rels_fold_merge_rel, simp add: is_event_def)
     (rule unique_rels_nodes_only [of _ g], simp_all)

lemma unique_rels_load_order_item: "unique_rels g \<Longrightarrow> unique_rels (load_order_item row g)"
  unfolding load_order_item_def
proof (rule fold_preserves [where P = unique_rels])
  fix ab g' assume "unique_rels g'"
  then have "unique_rels (merge_rel CONTAINS ab g')"
    by (intro unique_rels_merge_rel) (simp add: is_event_def)
  then show "unique_rels (set_rels CONTAINS ab (\<lambda>r. r\<lparr>quantity := Some (item_quantity row)\<rparr>)
                (merge_rel CONTAINS ab g'))"
    by (simp add: unique_rels_rkeys rkeys_set_rels rel_key_def)
qed

lemma unique_rels_load_event: "unique_rels g \<Longrightarrow> unique_rels (load_event row g)"
  unfolding load_event_def
proof (rule fold_preserves [where P = unique_rels])
  fix cp g' assume "unique_rels g'"
  then show "unique_rels (create_rel (event_rel row cp) g')"
    by (simp add: unique_rels_rkeys rkeys_create_rel event_rel_def is_event_rel_type)
qed

lemma unique_rels_etl: "unique_rels g \<Longrightarrow> unique_rels (etl t g)"
  unfolding etl_def
  by (intro fold_preserves [where P = unique_rels] unique_rels_load_category
      unique_rels_load_product unique_rels_load_customer unique_rels_load_order
      unique_rels_load_order_item unique_rels_load_event)

lemma unique_empty_graph: "unique_nodes empty_graph" "unique_rels empty_graph"
  by (simp_all add: unique_nodes_def unique_rels_def empty_graph_def)

lemma unique_loaded: "unique_nodes (etl t empty_graph)" "unique_rels (etl t empty_graph)"
  by (simp_all add: unique_nodes_etl unique_rels_etl unique_empty_graph)

section \<open>Order items\<close>

lemma between_cong: "rels g = rels g' \<Longrightarrow> between g t a b = between g' t a b"
  by (simp add: between_def)

lemma between_Nil_iff: "between g t a b = [] \<longleftrightarrow> \<not> (\<exists>r \<in> set (rels g). rel_between t a b r)"
  by (auto simp: between_def filter_empty_conv)

lemma between_put_same:
  assumes "\<And>r. rel_key (f r) = rel_key r"
  shows "between (set_rels t (a, b) f (merge_rel t (a, b) g)) t a b =
           (if between g t a b = [] then [f (new_rel t a b)] else map f (between g t a b))"
proof -
  have k: "rel_between t a b (f r) \<longleftrightarrow> rel_between t a b r" for r
    using assms [of r] by (simp add: rel_key_def rel_between_def)
  have m: "[r \<leftarrow> map (\<lambda>r. if rel_between t a b r then f r else r) rs. rel_between t a b r]
           = map f [r \<leftarrow> rs. rel_between t a b r]" for rs
    by (induction rs) (simp_all add: k)
  have n: "rel_between t a b (new_rel t a b)"
    by (simp add: rel_between_def new_rel_def)
  show ?thesis
    unfolding between_def set_rels_def merge_rel_def
    by (simp add: m n filter_empty_conv)
qed

lemma between_put_other:
  assumes "\<And>r. rel_key (f r) = rel_key r" and "(a', b') \<noteq> (a, b)"
  shows "between (set_rels t (a, b) f (merge_rel t (a, b) g)) t a' b' = between g t a' b'"
proof -
  have k: "rel_between t a' b' (f r) \<longleftrightarrow> rel_between t a' b' r" for r
    using assms(1) [of r] by (simp add: rel_key_def rel_between_def)
  have x: "rel_between t a b r \<Longrightarrow> \<not> rel_between t a' b' r" for r
    using assms(2) by (auto simp: rel_between_def)
  have m: "[r \<leftarrow> map (\<lambda>r. if rel_between t a b r then f r else r) rs. rel_between t a' b' r]
           = [r \<leftarrow> rs. rel_between t a' b' r]" for rs
    by (induction rs) (auto simp: k x)
  have n: "\<not> rel_between t a' b' (new_rel t a b)"
    using assms(2) by (auto simp: rel_between_def new_rel_def)
  show ?thesis
    unfolding between_def set_rels_def merge_rel_def
    by (simp add: m n)
qed

lemma between_fold_put:
  assumes "\<And>r. rel_key (f r) = rel_key r" and "distinct ps"
  shows "between (fold (\<lambda>ab g'. set_rels t ab f (merge_rel t ab g')) ps g) t a b =
           (if (a, b) \<in> set ps
            then (if between g t a b = [] then [f (new_rel t a b)] else map f (between g t a b))
            else between g t a b)"
  using assms(2)
proof (induction ps arbitrary: g)
  case Nil
  then show ?case by simp
next
  case (Cons ab ps)
  obtain a0 b0 where ab: "ab = (a0, b0)" by (cases ab)
  let ?g1 = "set_rels t ab f (merge_rel t ab g)"
  from Cons.prems have d: "distinct ps" and notin: "ab \<notin> set ps" by simp_all
  have step: "between (fold (\<lambda>ab g'. set_rels t ab f (merge_rel t ab g')) (ab # ps) g) t a b
        = (if (a, b) \<in> set ps
            then (if between ?g1 t a b = [] then [f (new_rel t a b)]
                  else map f (between ?g1 t a b))
            else between ?g1 t a b)"
    using Cons.IH [OF d, of ?g1] by simp
  show ?case
  proof (cases "(a, b) = ab")
    case True
    with notin have "(a, b) \<notin> set ps" by simp
    moreover have "between ?g1 t a b =
        (if between g t a b = [] then [f (new_rel t a b)] else map f (between g t a b))"
      using between_put_same [OF assms(1), of t a b g] True by simp
    ultimately show ?thesis using step True by simp
  next
    case False
    then have "(a, b) \<noteq> (a0, b0)" by (simp add: ab)
    from between_put_other [OF assms(1) this, of t g]
    have "between ?g1 t a b = between g t a b" by (simp add: ab)
    with step False show ?thesis by auto
  qed
qed

lemma distinct_pairs:
  "distinct xs \<Longrightarrow> distinct ys \<Longrightarrow> distinct [(x, y). x \<leftarrow> xs, y \<leftarrow> ys]"
  by (induction xs) (auto simp: distinct_map inj_on_def)

lemma set_pairs: "set [(x, y). x \<leftarrow> xs, y \<leftarrow> ys] = set xs \<times> set ys"
  by auto

lemma between_load_order_item:
  "between (load_order_item row g) CONTAINS a b =
     (if a \<in> set (node_ids Order (item_order_id row) g)
         \<and> b \<in> set (node_ids Product (item_product_id row) g)
      then (if between g CONTAINS a b = []
            then [(new_rel CONTAINS a b)\<lparr>quantity := Some (item_quantity row)\<rparr>]
            else map (\<lambda>r. r\<lparr>quantity := Some (item_quantity row)\<rparr>) (between g CONTAINS a b))
      else between g CONTAINS a b)"
proof -
  let ?ps = "[(od, p). od \<leftarrow> node_ids Order (item_order_id row) g,
                       p \<leftarrow> node_ids Product (item_product_id row) g]"
  have d: "distinct ?ps"
    by (intro distinct_pairs distinct_node_ids)
  have k: "rel_key (r\<lparr>quantity := Some (item_quantity row)\<rparr>) = rel_key r" for r
    by (simp add: rel_key_def)
  have s: "(a, b) \<in> set ?ps \<longleftrightarrow> a \<in> set (node_ids Order (item_order_id row) g)
         \<and> b \<in> set (node_ids Product (item_product_id row) g)"
    unfolding set_pairs by simp
  show ?thesis
    unfolding load_order_item_def
    using between_fold_put [where f = "\<lambda>r. r\<lparr>quantity := Some (item_quantity row)\<rparr>",
        OF k d, of CONTAINS g a b]
    unfolding s by simp
qed









lemma etl_phases:
  "etl t g =
     fold load_event (events_df t) (fold load_order_item (order_items_df t) (load_entities t g))"
  by (simp add: etl_def load_entities_def)

lemma unique_nodes_load_entities: "unique_nodes g \<Longrightarrow> unique_nodes (load_entities t g)"
  unfolding load_entities_def
  by (intro fold_preserves [where P = unique_nodes] unique_nodes_load_category
      unique_nodes_load_product unique_nodes_load_customer unique_nodes_load_order)










section \<open>Popular products\<close>

lemma rank_key_le_iff: "rank_key a \<le> rank_key b \<longleftrightarrow> ranks_before a b"
  by (cases "row_price a"; cases "row_price b")
     (auto simp: rank_key_def price_key_def ranks_before_def)

lemma sorted_order_by_rank: "sorted_wrt ranks_before (order_by_rank rows)"
proof -
  have "sorted (map rank_key (sort_key rank_key rows))"
    by (rule sorted_sort_key)
  then show ?thesis
    by (simp add: order_by_rank_def sorted_map rank_key_le_iff)
qed

lemma distinct_card_iff: "distinct xs \<longleftrightarrow> card (set xs) = length xs"
  using distinct_card card_distinct by blast

lemma distinct_order_by_rank: "distinct (map f (order_by_rank rows)) \<longleftrightarrow> distinct (map f rows)"
  unfolding distinct_card_iff by (simp add: order_by_rank_def)

lemma concat_map_if:
  "concat (map (\<lambda>x. if P x then [f x] else []) xs) = map f (filter P xs)"
  by (induction xs) simp_all

lemma orders_of_eq:
  "orders_of g p =
     map src [r \<leftarrow> rels g. rtype r = CONTAINS \<and> tgt r = p \<and> has_label g (src r) Order]"
  unfolding orders_of_def by (rule concat_map_if)

lemma popular_matches_eq:
  "popular_matches g =
     map tgt [r \<leftarrow> rels g. rtype r = CONTAINS \<and> has_label g (src r) Order
                          \<and> has_label g (tgt r) Product]"
  unfolding popular_matches_def by (rule concat_map_if)

lemma count_popular_matches:
  assumes "has_label g p Product"
  shows "count_list (popular_matches g) p = length (orders_of g p)"
proof -
  have "[r \<leftarrow> rels g. (rtype r = CONTAINS \<and> has_label g (src r) Order
                          \<and> has_label g (tgt r) Product) \<and> p = tgt r]
        = [r \<leftarrow> rels g. rtype r = CONTAINS \<and> tgt r = p \<and> has_label g (src r) Order]"
    using assms by (intro filter_cong) auto
  then show ?thesis
    by (simp add: count_list_eq_length_filter popular_matches_eq orders_of_eq filter_map
        comp_def)
qed

lemma distinct_orders_of:
  assumes "unique_rels g"
  shows "distinct (orders_of g p)"
proof -
  let ?ne = "[r \<leftarrow> rels g. \<not> is_event (rtype r)]"
  let ?P = "\<lambda>r. rtype r = CONTAINS \<and> tgt r = p \<and> has_label g (src r) Order"
  have e: "[r \<leftarrow> rels g. ?P r] = [r \<leftarrow> ?ne. ?P r]"
    by (auto simp: is_event_def intro: filter_cong)
  from assms have "distinct (map rel_key ?ne)"
    by (simp add: unique_rels_def)
  then have "distinct (map rel_key [r \<leftarrow> ?ne. ?P r])"
    by (rule distinct_map_filter)
  then have "distinct (map src [r \<leftarrow> ?ne. ?P r])"
    by (auto simp: distinct_map inj_on_def rel_key_def)
  then show ?thesis
    by (simp add: orders_of_eq e)
qed

lemma length_orders_of:
  "unique_rels g \<Longrightarrow> length (orders_of g p) = card (containing_orders g p)"
  using distinct_card [OF distinct_orders_of, of g p] by (simp add: set_orders_of)

text \<open>The records of the popular ranking, in a graph without doubled relationships.\<close>

lemma set_popular_ranking:
  assumes "unique_rels g"
  shows "set (popular_ranking g) =
           {ranked_row_of g (p, card (containing_orders g p)) | p.
              has_label g p Product \<and> containing_orders g p \<noteq> {}}"
proof -
  have "set (count_by (popular_matches g)) =
          {(p, card (containing_orders g p)) | p.
              has_label g p Product \<and> containing_orders g p \<noteq> {}}"
  proof (intro set_eqI iffI)
    fix pc assume "pc \<in> set (count_by (popular_matches g))"
    then have m: "fst pc \<in> set (popular_matches g)"
      and c: "snd pc = count_list (popular_matches g) (fst pc)"
      by (simp_all add: in_count_by)
    from m have l: "has_label g (fst pc) Product" and ne: "containing_orders g (fst pc) \<noteq> {}"
      by (simp_all add: popular_matches_iff)
    from c have "snd pc = card (containing_orders g (fst pc))"
      by (simp add: count_popular_matches [OF l] length_orders_of [OF assms])
    with l ne show "pc \<in> {(p, card (containing_orders g p)) | p.
              has_label g p Product \<and> containing_orders g p \<noteq> {}}"
      by (cases pc) auto
  next
    fix pc assume "pc \<in> {(p, card (containing_orders g p)) | p.
              has_label g p Product \<and> containing_orders g p \<noteq> {}}"
    then obtain p where p: "pc = (p, card (containing_orders g p))" "has_label g p Product"
      "containing_orders g p \<noteq> {}"
      by blast
    then have "p \<in> set (popular_matches g)"
      by (simp add: popular_matches_iff)
    moreover have "card (containing_orders g p) = count_list (popular_matches g) p"
      by (simp add: count_popular_matches [OF p(2)] length_orders_of [OF assms])
    ultimately show "pc \<in> set (count_by (popular_matches g))"
      by (simp add: in_count_by p(1))
  qed
  then show ?thesis
    unfolding popular_ranking_def set_order_by_rank by auto
qed

lemma distinct_count_by: "distinct (map fst (count_by xs))"
  by (simp add: count_by_def comp_def)

lemma ident_inj_on_label:
  assumes "unique_nodes g" "has_label g i l" "has_label g j l"
    "ident (nodes g ! i) = ident (nodes g ! j)"
  shows "i = j"
proof -
  from assms(2,3,4) have "i < length (keys g)" "j < length (keys g)" "keys g ! i = keys g ! j"
    by (auto simp: has_label_def keys_def node_key_def)
  with assms(1) show ?thesis
    by (simp add: unique_nodes_keys nth_eq_iff_index_eq)
qed

lemma distinct_popular_products:
  assumes "unique_nodes g"
  shows "distinct (map product_id (popular_ranking g))"
proof -
  let ?cs = "count_by (popular_matches g)"
  have l: "has_label g (fst pc) Product" if "pc \<in> set ?cs" for pc
    using that by (simp add: in_count_by popular_matches_iff)
  have "inj_on (\<lambda>pc. ident (nodes g ! fst pc)) (set ?cs)"
  proof (rule inj_onI)
    fix x y assume x: "x \<in> set ?cs" and y: "y \<in> set ?cs"
      and e: "ident (nodes g ! fst x) = ident (nodes g ! fst y)"
    from ident_inj_on_label [OF assms l [OF x] l [OF y] e] have "fst x = fst y" .
    moreover from this x y have "snd x = snd y"
      by (simp add: in_count_by)
    ultimately show "x = y"
      by (rule prod_eqI)
  qed
  moreover have "distinct ?cs"
    using distinct_count_by [of "popular_matches g"] by (simp add: distinct_map)
  ultimately have "distinct (map (\<lambda>pc. ident (nodes g ! fst pc)) ?cs)"
    by (simp add: distinct_map)
  then show ?thesis
    by (simp add: popular_ranking_def distinct_order_by_rank ranked_row_of_def comp_def)
qed

lemma bestsellers_top_two:
  "popular_products (etl bestsellers empty_graph) 2 =
     Inr [\<lparr>product_id = StrV ''P1'', product_name = Some ''p1'', row_price = Some 10,
           row_count = 5\<rparr>,
          \<lparr>product_id = StrV ''P2'', product_name = Some ''p2'', row_price = Some 20,
           row_count = 5\<rparr>]"
  by code_simp

text \<open>
  Claim C3, as amended.  Take the graph that the loader produces from a store in which no
  two nodes share label and id and no two relationships other than events share type and
  end points; the empty store is one.  For a limit from 0 to below \<open>2 ^ 63\<close> the
  popular-products query returns the first \<open>limit\<close> records of a ranking that has one
  record for each Product node contained in at least one order, with the number of
  distinct Order nodes that contain it as its count, no product twice, ordered by count
  descending and, for equal counts, price ascending.  For any other limit the end point
  returns no list.  For products with prices 10, 20 and 5 in 5, 5 and 2 orders and the
  limit 2, the records are the product of price 10 and then the product of price 20.
\<close>

theorem popular_products_ranked:
  assumes "unique_nodes g0" and "unique_rels g0"
  shows "(0 \<le> limit \<and> limit < 2 ^ 63 \<longrightarrow>
      (\<exists>rows. popular_products (etl t g0) limit = Inr rows
         \<and> rows = take (nat limit) (popular_ranking (etl t g0))
         \<and> length rows \<le> nat limit))
   \<and> ((\<exists>rows. popular_products (etl t g0) limit = Inr rows) \<longrightarrow> 0 \<le> limit \<and> limit < 2 ^ 63)
   \<and> sorted_wrt ranks_before (popular_ranking (etl t g0))
   \<and> distinct (map product_id (popular_ranking (etl t g0)))
   \<and> set (popular_ranking (etl t g0)) =
       {ranked_row_of (etl t g0) (p, card (containing_orders (etl t g0) p)) | p.
          has_label (etl t g0) p Product \<and> containing_orders (etl t g0) p \<noteq> {}}
   \<and> popular_products (etl bestsellers empty_graph) 2 =
       Inr [\<lparr>product_id = StrV ''P1'', product_name = Some ''p1'', row_price = Some 10,
             row_count = 5\<rparr>,
            \<lparr>product_id = StrV ''P2'', product_name = Some ''p2'', row_price = Some 20,
             row_count = 5\<rparr>]"
proof (intro conjI impI)
  assume "0 \<le> limit \<and> limit < 2 ^ 63"
  then show "\<exists>rows. popular_products (etl t g0) limit = Inr rows
         \<and> rows = take (nat limit) (popular_ranking (etl t g0))
         \<and> length rows \<le> nat limit"
    by (simp add: popular_products_def limit_rows_nonneg)
next
  assume "\<exists>rows. popular_products (etl t g0) limit = Inr rows"
  then show "0 \<le> limit" and "limit < 2 ^ 63"
    by (auto simp: popular_products_def dest: limit_rows_Inr)
next
  show "sorted_wrt ranks_before (popular_ranking (etl t g0))"
    unfolding popular_ranking_def by (rule sorted_order_by_rank)
next
  show "distinct (map product_id (popular_ranking (etl t g0)))"
    using assms(1) by (intro distinct_popular_products unique_nodes_etl)
next
  show "set (popular_ranking (etl t g0)) =
       {ranked_row_of (etl t g0) (p, card (containing_orders (etl t g0) p)) | p.
          has_label (etl t g0) p Product \<and> containing_orders (etl t g0) p \<noteq> {}}"
    using assms(2) by (intro set_popular_ranking unique_rels_etl)
next
  show "popular_products (etl bestsellers empty_graph) 2 =
       Inr [\<lparr>product_id = StrV ''P1'', product_name = Some ''p1'', row_price = Some 10,
             row_count = 5\<rparr>,
            \<lparr>product_id = StrV ''P2'', product_name = Some ''p2'', row_price = Some 20,
             row_count = 5\<rparr>]"
    by (rule bestsellers_top_two)
qed

theorem popular_products_ranked_witness:
  "unique_nodes empty_graph \<and> unique_rels empty_graph
   \<and> (0::int) \<le> 2 \<and> (2::int) < 2 ^ 63
   \<and> popular_products (etl bestsellers empty_graph) 2 =
       Inr (take (nat 2) (popular_ranking (etl bestsellers empty_graph)))
   \<and> take (nat 2) (popular_ranking (etl bestsellers empty_graph)) =
       [\<lparr>product_id = StrV ''P1'', product_name = Some ''p1'', row_price = Some 10,
         row_count = 5\<rparr>,
        \<lparr>product_id = StrV ''P2'', product_name = Some ''p2'', row_price = Some 20,
         row_count = 5\<rparr>]
   \<and> has_label (etl bestsellers empty_graph) 1 Product
   \<and> containing_orders (etl bestsellers empty_graph) 1 \<noteq> {}
   \<and> ranked_row_of (etl bestsellers empty_graph)
        (1, card (containing_orders (etl bestsellers empty_graph) 1))
       \<in> set (popular_ranking (etl bestsellers empty_graph))
   \<and> length (popular_ranking (etl bestsellers empty_graph)) = 3"
proof -
  let ?G = "etl bestsellers empty_graph"
  have un: "unique_nodes empty_graph"
    by (simp add: unique_nodes_def empty_graph_def)
  have ur: "unique_rels empty_graph"
    by (simp add: unique_rels_def empty_graph_def)
  note inst = popular_products_ranked [OF un ur, of 2 bestsellers]
  have z: "(0::int) \<le> 2 \<and> (2::int) < 2 ^ 63" by simp
  with inst have "\<exists>rows. popular_products ?G 2 = Inr rows
         \<and> rows = take (nat 2) (popular_ranking ?G) \<and> length rows \<le> nat 2"
    by blast
  then have pl: "popular_products ?G 2 = Inr (take (nat 2) (popular_ranking ?G))"
    by blast
  from inst have e: "popular_products ?G 2 =
       Inr [\<lparr>product_id = StrV ''P1'', product_name = Some ''p1'', row_price = Some 10,
             row_count = 5\<rparr>,
            \<lparr>product_id = StrV ''P2'', product_name = Some ''p2'', row_price = Some 20,
             row_count = 5\<rparr>]"
    by (elim conjE)
  from pl [symmetric] e have "Inr (take (nat 2) (popular_ranking ?G)) =
       (Inr [\<lparr>product_id = StrV ''P1'', product_name = Some ''p1'', row_price = Some 10,
             row_count = 5\<rparr>,
            \<lparr>product_id = StrV ''P2'', product_name = Some ''p2'', row_price = Some 20,
             row_count = 5\<rparr>] :: error + ranked_row list)"
    by (rule trans)
  then have a: "take (nat 2) (popular_ranking ?G) =
       [\<lparr>product_id = StrV ''P1'', product_name = Some ''p1'', row_price = Some 10,
         row_count = 5\<rparr>,
        \<lparr>product_id = StrV ''P2'', product_name = Some ''p2'', row_price = Some 20,
         row_count = 5\<rparr>]"
    by (simp only: sum.inject)
  have l: "has_label ?G 1 Product" by code_simp
  have "orders_of ?G 1 \<noteq> []" by code_simp
  then have ne: "containing_orders ?G 1 \<noteq> {}"
    using set_orders_of [of ?G 1] by auto
  from inst have "set (popular_ranking ?G) =
       {ranked_row_of ?G (p, card (containing_orders ?G p)) | p.
          has_label ?G p Product \<and> containing_orders ?G p \<noteq> {}}"
    by blast
  with l ne have m: "ranked_row_of ?G (1, card (containing_orders ?G 1))
       \<in> set (popular_ranking ?G)"
    by blast
  have n: "length (popular_ranking ?G) = 3" by code_simp
  from z have z1: "(0::int) \<le> 2" and z2: "(2::int) < 2 ^ 63"
    by (rule conjunct1, rule conjunct2)
  from un ur z1 z2 pl a l ne m n show ?thesis by (intro conjI)
qed

text \<open>
  The claim speaks of every limit.  For the limit \<open>-1\<close> the store rejects the statement,
  and for the limit \<open>2 ^ 63\<close> the driver cannot send the parameter: the end point returns
  no list of products.
\<close>

theorem popular_products_limit_counterexample:
  "popular_products (etl bestsellers empty_graph) (- 1) = Inl InvalidLimit
   \<and> popular_products (etl bestsellers empty_graph) (2 ^ 63) = Inl OverflowError"
  by (simp add: popular_products_def limit_rows_def)

section \<open>Collaborative filtering\<close>

lemma set_count_distinct_by:
  "set (count_distinct_by xys) = {(x, card {y. (x, y) \<in> set xys}) | x. x \<in> fst ` set xys}"
proof -
  have "length (remdups (map snd [xy \<leftarrow> xys. fst xy = x])) = card {y. (x, y) \<in> set xys}" for x
  proof -
    have "set (map snd [xy \<leftarrow> xys. fst xy = x]) = {y. (x, y) \<in> set xys}"
      by (auto simp: image_iff)
    then show ?thesis
      by (simp only: length_remdups_card_conv)
  qed
  then show ?thesis
    by (auto simp: count_distinct_by_def image_iff)
qed

lemma distinct_count_distinct_by: "distinct (map fst (count_distinct_by xys))"
  by (simp add: count_distinct_by_def comp_def)

lemma set_label_ids: "set (label_ids l g) = {i. has_label g i l}"
  by (auto simp: label_ids_def has_label_def)

lemma customer_products_single:
  assumes "node_ids Customer (StrV cid) g = [c]"
  shows "customer_products g cid =
           (if purchased g c = [] then [] else [(c, remdups (purchased g c))])"
  using assms by (simp add: customer_products_def)

text \<open>Stage two, for one row of stage one.\<close>

lemma set_common_products:
  assumes "set cps = bought g c"
  shows "set (common_products g (c, cps)) =
           {(other, card (bought g other \<inter> bought g c)) | other. other \<in> overlapping g c}"
proof -
  let ?pairs = "[(other, p2). other \<leftarrow> label_ids Customer g,
                     ident (nodes g ! other) \<noteq> ident (nodes g ! c),
                     p2 \<leftarrow> purchased g other, p2 \<in> set cps]"
  have s: "set ?pairs = {(other, p2). has_label g other Customer
              \<and> ident (nodes g ! other) \<noteq> ident (nodes g ! c)
              \<and> p2 \<in> bought g other \<inter> bought g c}"
    by (auto simp: set_label_ids set_purchased assms)
  have f: "fst ` set ?pairs = overlapping g c"
    unfolding s overlapping_def by (auto simp: image_iff) blast
  have c: "{y. (other, y) \<in> set ?pairs} = bought g other \<inter> bought g c"
    if "other \<in> overlapping g c" for other
    using that unfolding s overlapping_def by auto
  have "set (common_products g (c, cps)) =
          {(x, card {y. (x, y) \<in> set ?pairs}) | x. x \<in> fst ` set ?pairs}"
    unfolding common_products_def fst_conv snd_conv by (rule set_count_distinct_by)
  also have "\<dots> = {(other, card (bought g other \<inter> bought g c)) | other. other \<in> overlapping g c}"
    unfolding f using c by auto
  finally show ?thesis .
qed

lemma distinct_common_products: "distinct (map fst (common_products g ccp))"
  unfolding common_products_def by (rule distinct_count_distinct_by)

lemma distinct_map_sort_key:
  "distinct (map f (sort_key k xs)) \<longleftrightarrow> distinct (map f xs)"
  unfolding distinct_card_iff by simp

lemma sorted_by_count_desc:
  "sorted_wrt (\<lambda>a b. snd (snd b) \<le> snd (snd a))
     (sort_key (\<lambda>row. - int (snd (snd row))) (rows :: ('a \<times> 'b \<times> nat) list))"
proof -
  have "sorted (map (\<lambda>row. - int (snd (snd row)))
          (sort_key (\<lambda>row. - int (snd (snd row))) rows))"
    by (rule sorted_sort_key)
  then show ?thesis
    by (simp add: sorted_map)
qed

text \<open>
  Stage two as a whole: the neighbours are the first ten of a list that holds every
  overlapping customer once, with the number of common products, in descending order of
  that number.
\<close>

lemma neighbours_top_ten:
  assumes "node_ids Customer (StrV cid) g = [c]"
  shows "\<exists>all. neighbours g cid = take 10 all
           \<and> sorted_wrt (\<lambda>a b. snd (snd b) \<le> snd (snd a)) all
           \<and> distinct (map (\<lambda>row. fst (snd row)) all)
           \<and> set (map (\<lambda>row. fst (snd row)) all) = overlapping g c
           \<and> (\<forall>row \<in> set all. fst (fst row) = c \<and> set (snd (fst row)) = bought g c
                 \<and> snd (snd row) = card (bought g (fst (snd row)) \<inter> bought g c))"
proof -
  let ?rows = "[(ccp, other_n). ccp \<leftarrow> customer_products g cid,
                 other_n \<leftarrow> common_products g ccp]"
  let ?all = "sort_key (\<lambda>row. - int (snd (snd row))) ?rows"
  have n: "neighbours g cid = take 10 ?all"
    by (simp add: neighbours_def)
  have s: "sorted_wrt (\<lambda>a b. snd (snd b) \<le> snd (snd a)) ?all"
    by (rule sorted_by_count_desc)
  show ?thesis
  proof (cases "purchased g c = []")
    case True
    then have "bought g c = {}"
      using set_purchased [of g c] by simp
    then have o: "overlapping g c = {}"
      by (simp add: overlapping_def)
    from True have "?all = []"
      by (simp add: customer_products_single [OF assms])
    with n o show ?thesis by simp
  next
    case False
    let ?cps = "remdups (purchased g c)"
    have cps: "set ?cps = bought g c"
      by (simp add: set_purchased)
    from False have rows: "?rows = map (Pair (c, ?cps)) (common_products g (c, ?cps))"
      by (simp add: customer_products_single [OF assms])
    have d: "distinct (map (\<lambda>row. fst (snd row)) ?all)"
      unfolding distinct_map_sort_key rows
      using distinct_common_products [of g "(c, ?cps)"] by (simp add: comp_def)
    have m: "set (map (\<lambda>row. fst (snd row)) ?all) = overlapping g c"
      unfolding rows using set_common_products [OF cps] by (auto simp: image_iff)
    have r: "\<forall>row \<in> set ?all. fst (fst row) = c \<and> set (snd (fst row)) = bought g c
                 \<and> snd (snd row) = card (bought g (fst (snd row)) \<inter> bought g c)"
      unfolding rows using set_common_products [OF cps] cps by auto
    from n s d m r show ?thesis by blast
  qed
qed

lemma neighbours_rows:
  assumes "node_ids Customer (StrV cid) g = [c]" and "row \<in> set (neighbours g cid)"
  shows "set (snd (fst row)) = bought g c" and "fst (snd row) \<in> overlapping g c"
proof -
  from neighbours_top_ten [OF assms(1)] obtain all where
    a: "neighbours g cid = take 10 all"
    and m: "set (map (\<lambda>row. fst (snd row)) all) = overlapping g c"
    and r: "\<forall>row \<in> set all. fst (fst row) = c \<and> set (snd (fst row)) = bought g c
                 \<and> snd (snd row) = card (bought g (fst (snd row)) \<inter> bought g c)"
    by blast
  from assms(2) a have i: "row \<in> set all"
    by (auto dest: in_set_takeD)
  with r show "set (snd (fst row)) = bought g c" by blast
  from i m show "fst (snd row) \<in> overlapping g c" by force
qed

lemma length_neighbours:
  assumes "node_ids Customer (StrV cid) g = [c]"
  shows "length (neighbours g cid) = min 10 (card (overlapping g c))"
proof -
  from neighbours_top_ten [OF assms] obtain all where
    a: "neighbours g cid = take 10 all"
    and d: "distinct (map (\<lambda>row. fst (snd row)) all)"
    and m: "set (map (\<lambda>row. fst (snd row)) all) = overlapping g c"
    by blast
  from distinct_card [OF d] have "length all = card (overlapping g c)"
    unfolding m by simp
  with a show ?thesis by simp
qed

text \<open>Stage three: a candidate with each neighbour that bought it.\<close>

lemma set_collaborative_matches:
  assumes "node_ids Customer (StrV cid) g = [c]"
  shows "set (collaborative_matches g cid) =
           {(rec, other). other \<in> set (neighbour_ids g cid) \<and> rec \<in> bought g other
                          \<and> rec \<notin> bought g c}"
proof (intro set_eqI iffI)
  fix x assume "x \<in> set (collaborative_matches g cid)"
  then obtain row where row: "row \<in> set (neighbours g cid)"
    and x: "snd x = fst (snd row)" "fst x \<in> set (purchased g (fst (snd row)))"
      "fst x \<notin> set (snd (fst row))"
    by (auto simp: collaborative_matches_def)
  from row x(1) have "snd x \<in> set (neighbour_ids g cid)"
    by (auto simp: neighbour_ids_def)
  moreover from x have "fst x \<in> bought g (snd x)"
    by (simp add: set_purchased)
  moreover from x(3) neighbours_rows(1) [OF assms row] have "fst x \<notin> bought g c"
    by simp
  ultimately show "x \<in> {(rec, other). other \<in> set (neighbour_ids g cid)
      \<and> rec \<in> bought g other \<and> rec \<notin> bought g c}"
    by (cases x) simp
next
  fix x assume "x \<in> {(rec, other). other \<in> set (neighbour_ids g cid)
      \<and> rec \<in> bought g other \<and> rec \<notin> bought g c}"
  then have o: "snd x \<in> set (neighbour_ids g cid)" and b: "fst x \<in> bought g (snd x)"
    and n: "fst x \<notin> bought g c"
    by (cases x, simp)+
  from o obtain row where row: "row \<in> set (neighbours g cid)" "snd x = fst (snd row)"
    by (auto simp: neighbour_ids_def)
  from b row(2) have p: "fst x \<in> set (purchased g (fst (snd row)))"
    by (simp add: set_purchased)
  from n neighbours_rows(1) [OF assms row(1)] have q: "fst x \<notin> set (snd (fst row))"
    by simp
  have "(fst x, fst (snd row)) \<in> set (collaborative_matches g cid)"
    unfolding collaborative_matches_def using row(1) p q by auto
  with row(2) show "x \<in> set (collaborative_matches g cid)"
    by (cases x) simp
qed

lemma set_collaborative_ranking:
  assumes "node_ids Customer (StrV cid) g = [c]"
  shows "set (collaborative_ranking g cid) =
           {ranked_row_of g
              (rec, card {other \<in> set (neighbour_ids g cid). rec \<in> bought g other}) | rec.
              rec \<notin> bought g c \<and> (\<exists>other \<in> set (neighbour_ids g cid). rec \<in> bought g other)}"
proof -
  let ?N = "set (neighbour_ids g cid)"
  let ?ms = "collaborative_matches g cid"
  note m = set_collaborative_matches [OF assms]
  have f: "fst ` set ?ms = {rec. rec \<notin> bought g c \<and> (\<exists>other \<in> ?N. rec \<in> bought g other)}"
    unfolding m by (auto simp: image_iff)
  have c: "{y. (rec, y) \<in> set ?ms} = {other \<in> ?N. rec \<in> bought g other}"
    if "rec \<notin> bought g c" for rec
    unfolding m using that by auto
  have "set (count_distinct_by ?ms) =
          {(rec, card {other \<in> ?N. rec \<in> bought g other}) | rec.
              rec \<notin> bought g c \<and> (\<exists>other \<in> ?N. rec \<in> bought g other)}"
    unfolding set_count_distinct_by f using c by auto
  then show ?thesis
    unfolding collaborative_ranking_def set_order_by_rank by auto
qed

text \<open>One record for each candidate, and no product twice.\<close>

lemma length_collaborative_ranking:
  assumes "node_ids Customer (StrV cid) g = [c]"
  shows "length (collaborative_ranking g cid) =
           card {rec. rec \<notin> bought g c
                   \<and> (\<exists>other \<in> set (neighbour_ids g cid). rec \<in> bought g other)}"
proof -
  let ?ms = "collaborative_matches g cid"
  have f: "fst ` set ?ms = {rec. rec \<notin> bought g c
                   \<and> (\<exists>other \<in> set (neighbour_ids g cid). rec \<in> bought g other)}"
    unfolding set_collaborative_matches [OF assms] by (auto simp: image_iff)
  have "length (collaborative_ranking g cid) = length (remdups (map fst ?ms))"
    by (simp add: collaborative_ranking_def length_order_by_rank count_distinct_by_def)
  also have "\<dots> = card (fst ` set ?ms)"
    by (simp add: length_remdups_card_conv)
  finally show ?thesis
    unfolding f .
qed

lemma collaborative_matches_products:
  "x \<in> set (collaborative_matches g cid) \<Longrightarrow> has_label g (fst x) Product"
proof -
  assume "x \<in> set (collaborative_matches g cid)"
  then obtain n where "fst x \<in> set (purchased g n)"
    by (auto simp: collaborative_matches_def)
  then show ?thesis
    by (simp add: set_purchased bought_def)
qed

lemma distinct_collaborative_products:
  assumes "unique_nodes g"
  shows "distinct (map product_id (collaborative_ranking g cid))"
proof -
  let ?cs = "count_distinct_by (collaborative_matches g cid)"
  have l: "has_label g i Product" if "i \<in> set (map fst ?cs)" for i
  proof -
    from that have "i \<in> fst ` set (collaborative_matches g cid)"
      by (simp add: count_distinct_by_def comp_def)
    then show ?thesis
      by (auto dest: collaborative_matches_products)
  qed
  have "inj_on (\<lambda>i. ident (nodes g ! i)) (set (map fst ?cs))"
  proof (rule inj_onI)
    fix x y assume "x \<in> set (map fst ?cs)" and "y \<in> set (map fst ?cs)"
      and "ident (nodes g ! x) = ident (nodes g ! y)"
    then show "x = y"
      using ident_inj_on_label [OF assms l l] by blast
  qed
  with distinct_count_distinct_by [of "collaborative_matches g cid"]
  have "distinct (map (\<lambda>i. ident (nodes g ! i)) (map fst ?cs))"
    by (simp only: distinct_map)
  then show ?thesis
    by (simp add: collaborative_ranking_def distinct_order_by_rank ranked_row_of_def comp_def)
qed

text \<open>
  Claim C4.  For a customer id that names one Customer node \<open>c\<close>, the collaborative query
  (a) collects the distinct products that \<open>c\<close> purchased over PLACED then CONTAINS;
  (b) keeps as neighbours the first ten of the other customers that share a purchased
  product with \<open>c\<close>, in descending order of the number of shared products (so their
  number is the smaller of 10 and the number of such customers, whatever the caller
  passes);
  (c, d) has one record in its ranking for each product that a neighbour purchased and
  \<open>c\<close> did not, with the number of distinct neighbours that purchased it as its
  popularity, ordered by popularity descending and, for equal popularity, price
  ascending; and returns the first \<open>limit\<close> records of the ranking, for a limit
  from 0 to below \<open>2 ^ 63\<close>.  Where no two nodes share label and id, no product is
  twice in the ranking.  An id that names no customer gives the empty ranking.
\<close>

theorem collaborative_two_stage:
  "(node_ids Customer (StrV cid) g = [] \<longrightarrow> collaborative_ranking g cid = [])
   \<and> (node_ids Customer (StrV cid) g = [c] \<longrightarrow>
        (\<forall>row \<in> set (customer_products g cid).
            fst row = c \<and> distinct (snd row) \<and> set (snd row) = bought g c)
      \<and> (\<exists>all. neighbours g cid = take 10 all
            \<and> sorted_wrt (\<lambda>a b. snd (snd b) \<le> snd (snd a)) all
            \<and> distinct (map (\<lambda>row. fst (snd row)) all)
            \<and> set (map (\<lambda>row. fst (snd row)) all) = overlapping g c
            \<and> (\<forall>row \<in> set all. fst (fst row) = c \<and> set (snd (fst row)) = bought g c
                  \<and> snd (snd row) = card (bought g (fst (snd row)) \<inter> bought g c)))
      \<and> length (neighbours g cid) = min 10 (card (overlapping g c))
      \<and> set (neighbour_ids g cid) \<subseteq> overlapping g c
      \<and> set (collaborative_ranking g cid) =
           {ranked_row_of g
              (rec, card {other \<in> set (neighbour_ids g cid). rec \<in> bought g other}) | rec.
              rec \<notin> bought g c \<and> (\<exists>other \<in> set (neighbour_ids g cid). rec \<in> bought g other)}
      \<and> length (collaborative_ranking g cid) =
           card {rec. rec \<notin> bought g c
                   \<and> (\<exists>other \<in> set (neighbour_ids g cid). rec \<in> bought g other)})
   \<and> sorted_wrt ranks_before (collaborative_ranking g cid)
   \<and> (unique_nodes g \<longrightarrow> distinct (map product_id (collaborative_ranking g cid)))
   \<and> (0 \<le> limit \<and> limit < 2 ^ 63 \<longrightarrow>
        collaborative_recommendations g cid limit =
          Inr (take (nat limit) (collaborative_ranking g cid)))"
proof (intro conjI impI)
  assume "node_ids Customer (StrV cid) g = []"
  then show "collaborative_ranking g cid = []"
    by (rule unknown_customer_collaborative)
next
  assume c: "node_ids Customer (StrV cid) g = [c]"
  show "\<forall>row \<in> set (customer_products g cid).
            fst row = c \<and> distinct (snd row) \<and> set (snd row) = bought g c"
    by (simp add: customer_products_single [OF c] set_purchased)
  show "\<exists>all. neighbours g cid = take 10 all
            \<and> sorted_wrt (\<lambda>a b. snd (snd b) \<le> snd (snd a)) all
            \<and> distinct (map (\<lambda>row. fst (snd row)) all)
            \<and> set (map (\<lambda>row. fst (snd row)) all) = overlapping g c
            \<and> (\<forall>row \<in> set all. fst (fst row) = c \<and> set (snd (fst row)) = bought g c
                  \<and> snd (snd row) = card (bought g (fst (snd row)) \<inter> bought g c))"
    using c by (rule neighbours_top_ten)
  show "length (neighbours g cid) = min 10 (card (overlapping g c))"
    using c by (rule length_neighbours)
  show "set (neighbour_ids g cid) \<subseteq> overlapping g c"
    using neighbours_rows(2) [OF c] by (auto simp: neighbour_ids_def)
  show "set (collaborative_ranking g cid) =
           {ranked_row_of g
              (rec, card {other \<in> set (neighbour_ids g cid). rec \<in> bought g other}) | rec.
              rec \<notin> bought g c \<and> (\<exists>other \<in> set (neighbour_ids g cid). rec \<in> bought g other)}"
    using c by (rule set_collaborative_ranking)
  show "length (collaborative_ranking g cid) =
           card {rec. rec \<notin> bought g c
                   \<and> (\<exists>other \<in> set (neighbour_ids g cid). rec \<in> bought g other)}"
    using c by (rule length_collaborative_ranking)
next
  show "sorted_wrt ranks_before (collaborative_ranking g cid)"
    unfolding collaborative_ranking_def by (rule sorted_order_by_rank)
next
  assume "unique_nodes g"
  then show "distinct (map product_id (collaborative_ranking g cid))"
    by (rule distinct_collaborative_products)
next
  assume "0 \<le> limit \<and> limit < 2 ^ 63"
  then show "collaborative_recommendations g cid limit =
          Inr (take (nat limit) (collaborative_ranking g cid))"
    by (simp add: collaborative_recommendations_def limit_rows_nonneg)
qed

theorem collaborative_two_stage_witness:
  "node_ids Customer (StrV ''A'') shop_graph = [5]
   \<and> customer_products shop_graph ''A'' = [(5, [1])]
   \<and> bought shop_graph 5 = {1}
   \<and> neighbour_ids shop_graph ''A'' = [6, 7]
   \<and> {6, 7} \<subseteq> overlapping shop_graph 5
   \<and> length (neighbours shop_graph ''A'') = min 10 (card (overlapping shop_graph 5))
   \<and> distinct (map product_id (collaborative_ranking shop_graph ''A''))
   \<and> (0::int) \<le> 5 \<and> (5::int) < 2 ^ 63
   \<and> collaborative_recommendations shop_graph ''A'' 5 =
       Inr [\<lparr>product_id = StrV ''P3'', product_name = Some ''p3'', row_price = Some 5,
             row_count = 1\<rparr>,
            \<lparr>product_id = StrV ''P2'', product_name = Some ''p2'', row_price = Some 20,
             row_count = 1\<rparr>]"
proof -
  note inst = collaborative_two_stage [of "''A''" shop_graph 5 5]
  have c: "node_ids Customer (StrV ''A'') shop_graph = [5]"
    by code_simp
  have cp: "customer_products shop_graph ''A'' = [(5, [1])]"
    by code_simp
  have ni: "neighbour_ids shop_graph ''A'' = [6, 7]"
    by code_simp
  have r: "take (nat 5) (collaborative_ranking shop_graph ''A'') =
       [\<lparr>product_id = StrV ''P3'', product_name = Some ''p3'', row_price = Some 5,
             row_count = 1\<rparr>,
            \<lparr>product_id = StrV ''P2'', product_name = Some ''p2'', row_price = Some 20,
             row_count = 1\<rparr>]"
    by code_simp
  note known = inst [THEN conjunct2, THEN conjunct1, THEN mp, OF c]
  note a = known [THEN conjunct1]
  note l = known [THEN conjunct2, THEN conjunct2, THEN conjunct1]
  note s = known [THEN conjunct2, THEN conjunct2, THEN conjunct2, THEN conjunct1]
  note other = inst [THEN conjunct2, THEN conjunct2, THEN conjunct2]
  from a cp have b: "bought shop_graph 5 = {1}" by simp
  from s ni have o: "{6, 7} \<subseteq> overlapping shop_graph 5" by simp
  have "unique_nodes shop_graph"
    unfolding shop_graph_def by (rule unique_loaded)
  then have d: "distinct (map product_id (collaborative_ranking shop_graph ''A''))"
    by (rule other [THEN conjunct1, THEN mp])
  have z: "(0::int) \<le> 5" and z2: "(5::int) < 2 ^ 63" by simp_all
  then have zz: "(0::int) \<le> 5 \<and> (5::int) < 2 ^ 63"
    by (rule conjI)
  from zz have "collaborative_recommendations shop_graph ''A'' 5 =
          Inr (take (nat 5) (collaborative_ranking shop_graph ''A''))"
    by (rule other [THEN conjunct2, THEN mp])
  then have e: "collaborative_recommendations shop_graph ''A'' 5 =
       Inr [\<lparr>product_id = StrV ''P3'', product_name = Some ''p3'', row_price = Some 5,
             row_count = 1\<rparr>,
            \<lparr>product_id = StrV ''P2'', product_name = Some ''p2'', row_price = Some 20,
             row_count = 1\<rparr>]"
    unfolding r .
  from c cp b ni o l d z z2 e show ?thesis by (intro conjI)
qed

section \<open>Loading twice\<close>

subsection \<open>Node tables\<close>

lemma load_category_upsert: "load_category row g = upsert Category (category_write row) g"
  by (simp add: load_category_def upsert_def category_write_def)

lemma load_customer_upsert: "load_customer row g = upsert Customer (customer_write row) g"
  by (simp add: load_customer_def upsert_def customer_write_def)

lemma nodes_load_product:
  "nodes (load_product row g) = nodes (upsert Product (product_write row) g)"
  by (simp add: load_product_def Let_def upsert_def product_write_def)

lemma nodes_load_order:
  "nodes (load_order row g) = nodes (upsert Order (order_write row) g)"
  by (simp add: load_order_def Let_def upsert_def order_write_def)

lemma table_writes_category: "table_writes (map category_write rows)"
  by (auto simp: table_writes_def category_write_def node_key_def)

lemma table_writes_product: "table_writes (map product_write rows)"
  by (auto simp: table_writes_def product_write_def node_key_def)

lemma table_writes_customer: "table_writes (map customer_write rows)"
  by (auto simp: table_writes_def customer_write_def node_key_def)

lemma table_writes_order: "table_writes (map order_write rows)"
  by (auto simp: table_writes_def order_write_def node_key_def)

lemma table_writes_append:
  "table_writes (kfs @ [kf]) \<Longrightarrow> table_writes kfs"
  by (auto simp: table_writes_def)

lemma nodes_upsert:
  "nodes (upsert l kf g) =
     map (touch1 l kf)
       (if (l, fst kf) \<in> set (keys g) then nodes g else nodes g @ [new_node l (fst kf)])"
  by (simp add: upsert_def set_nodes_def merge_node_def node_ids_Nil_iff touch1_def)

lemma rels_upsert [simp]: "rels (upsert l kf g) = rels g"
  by (simp add: upsert_def)

lemma node_key_touch1:
  "(\<And>n. node_key (snd kf n) = node_key n) \<Longrightarrow> node_key (touch1 l kf n) = node_key n"
  by (simp add: touch1_def)

lemma node_key_touch:
  "table_writes kfs \<Longrightarrow> node_key (touch l kfs n) = node_key n"
  unfolding touch_def
proof (induction kfs arbitrary: n)
  case Nil
  then show ?case by simp
next
  case (Cons kf kfs)
  from Cons.prems have k: "\<And>n. node_key (snd kf n) = node_key n"
    and t: "table_writes kfs"
    by (auto simp: table_writes_def)
  from Cons.IH [OF t, of "touch1 l kf n"] node_key_touch1 [of kf l n, OF k]
  show ?case by simp
qed

lemma touch_snoc: "touch l (kfs @ [kf]) n = touch1 l kf (touch l kfs n)"
  by (simp add: touch_def)

lemma touch_other_label: "label n \<noteq> l \<Longrightarrow> touch l kfs n = n"
  unfolding touch_def by (induction kfs) (simp_all add: touch1_def)

text \<open>A write absorbs the writes of its table that came before it.\<close>

lemma write_absorbs:
  assumes "table_writes (kfs @ [kf])"
  shows "snd kf (touch l kfs n) = snd kf n"
  using assms unfolding touch_def
proof (induction kfs arbitrary: n)
  case Nil
  then show ?case by simp
next
  case (Cons kf' kfs)
  from Cons.prems have t: "table_writes (kfs @ [kf])"
    and o: "\<And>n. snd kf (snd kf' n) = snd kf n"
    by (auto simp: table_writes_def)
  have "snd kf (fold (touch1 l) kfs (touch1 l kf' n)) = snd kf (touch1 l kf' n)"
    using Cons.IH [OF t] .
  also have "\<dots> = snd kf n"
    by (simp add: touch1_def o)
  finally show ?case by simp
qed

text \<open>After the rows of a table the graph is settled for the table.\<close>

lemma settled_fold_upsert:
  assumes "table_writes kfs"
  shows "settled l kfs (fold (upsert l) kfs g)"
  using assms
proof (induction kfs rule: rev_induct)
  case Nil
  then show ?case by (simp add: settled_def touch_def)
next
  case (snoc kf kfs)
  let ?G = "fold (upsert l) kfs g"
  from snoc.prems have t: "table_writes kfs" by (rule table_writes_append)
  from snoc.IH [OF t] have ih: "\<And>n. n \<in> set (nodes ?G) \<Longrightarrow> touch l kfs n = n"
    by (simp add: settled_def)
  from snoc.prems have k: "\<And>n. node_key (snd kf n) = node_key n"
    and i: "\<And>n. snd kf (snd kf n) = snd kf n"
    by (auto simp: table_writes_def)
  have "touch l (kfs @ [kf]) (touch1 l kf n) = touch1 l kf n"
    if n: "n \<in> set (nodes ?G) \<or> n = new_node l (fst kf)" for n
  proof (cases "label n = l \<and> ident n = fst kf")
    case True
    have m: "label (touch l kfs (snd kf n)) = l \<and> ident (touch l kfs (snd kf n)) = fst kf"
      using node_key_touch [OF t, of l "snd kf n"] k [of n] True
      by (simp add: node_key_def)
    have "touch l (kfs @ [kf]) (snd kf n) = snd kf (touch l kfs (snd kf n))"
      unfolding touch_snoc using m by (simp add: touch1_def)
    also have "\<dots> = snd kf (snd kf n)"
      using snoc.prems by (rule write_absorbs)
    also have "\<dots> = snd kf n" by (rule i)
    finally show ?thesis using True by (simp add: touch1_def)
  next
    case False
    with n have "n \<in> set (nodes ?G)"
      by (auto simp: new_node_def)
    from ih [OF this] have a: "touch l kfs n = n" .
    from False have b: "touch1 l kf n = n"
      by (auto simp: touch1_def)
    show ?thesis
      by (simp only: touch_snoc a b)
  qed
  then show ?case
    unfolding settled_def by (auto simp: nodes_upsert split: if_splits)
qed

text \<open>Where every key of the table is present, its rows only rewrite the nodes.\<close>

lemma keys_upsert_eq:
  "(\<And>n. node_key (snd kf n) = node_key n) \<Longrightarrow>
   keys (upsert l kf g) =
     (if (l, fst kf) \<in> set (keys g) then keys g else keys g @ [(l, fst kf)])"
  unfolding upsert_def by (rule keys_upsert)

lemma nodes_fold_upsert_present:
  assumes "table_writes kfs" and "\<forall>kf \<in> set kfs. (l, fst kf) \<in> set (keys g)"
  shows "nodes (fold (upsert l) kfs g) = map (touch l kfs) (nodes g)"
  using assms
proof (induction kfs arbitrary: g)
  case Nil
  then show ?case by (simp add: touch_def)
next
  case (Cons kf kfs)
  from Cons.prems(1) have k: "\<And>n. node_key (snd kf n) = node_key n"
    and t: "table_writes kfs"
    by (auto simp: table_writes_def)
  from Cons.prems(2) have p: "(l, fst kf) \<in> set (keys g)" by simp
  have ks: "keys (upsert l kf g) = keys g"
    using keys_upsert_eq [of kf l g, OF k] p by simp
  with Cons.prems(2) have "\<forall>kf' \<in> set kfs. (l, fst kf') \<in> set (keys (upsert l kf g))"
    by simp
  from Cons.IH [OF t this] have
    "nodes (fold (upsert l) kfs (upsert l kf g)) = map (touch l kfs) (nodes (upsert l kf g))" .
  also have "\<dots> = map (touch l kfs) (map (touch1 l kf) (nodes g))"
    using p by (simp add: nodes_upsert)
  also have "\<dots> = map (touch l (kf # kfs)) (nodes g)"
    by (simp add: touch_def)
  finally show ?case by simp
qed

lemma graph_eqI: "nodes g = nodes g' \<Longrightarrow> rels g = rels g' \<Longrightarrow> g = (g' :: graph)"
  by simp

lemma rels_fold_upsert [simp]: "rels (fold (upsert l) kfs g) = rels g"
  by (induction kfs arbitrary: g) simp_all

text \<open>A settled graph with every key present is a fixed point of the table.\<close>

lemma fold_upsert_fixed:
  assumes "table_writes kfs" and "\<forall>kf \<in> set kfs. (l, fst kf) \<in> set (keys g)"
    and "settled l kfs g"
  shows "fold (upsert l) kfs g = g"
proof (rule graph_eqI)
  have "nodes (fold (upsert l) kfs g) = map (touch l kfs) (nodes g)"
    using assms(1,2) by (rule nodes_fold_upsert_present)
  also have "\<dots> = nodes g"
    using assms(3) by (simp add: settled_def map_idI)
  finally show "nodes (fold (upsert l) kfs g) = nodes g" .
  show "rels (fold (upsert l) kfs g) = rels g" by simp
qed

subsection \<open>Keys only grow\<close>

lemma adds_refl: "adds ls g g"
  by (simp add: adds_def)

lemma adds_same_keys: "keys g' = keys g \<Longrightarrow> adds ls g g'"
  by (simp add: adds_def)

lemma adds_mono: "adds ls g g' \<Longrightarrow> ls \<subseteq> ls' \<Longrightarrow> adds ls' g g'"
  by (auto simp: adds_def)

lemma adds_trans:
  assumes "adds ls g g'" "adds ls g' g''"
  shows "adds ls g g''"
proof -
  from assms(1) obtain ks where ks: "keys g' = keys g @ ks"
    "\<forall>k \<in> set ks. fst k \<in> ls \<and> k \<notin> set (keys g)"
    by (auto simp: adds_def)
  from assms(2) obtain ks' where ks': "keys g'' = keys g' @ ks'"
    "\<forall>k \<in> set ks'. fst k \<in> ls \<and> k \<notin> set (keys g')"
    by (auto simp: adds_def)
  have "keys g'' = keys g @ (ks @ ks')"
    by (simp add: ks(1) ks'(1))
  moreover have "\<forall>k \<in> set (ks @ ks'). fst k \<in> ls \<and> k \<notin> set (keys g)"
    using ks(2) ks'(2) by (auto simp: ks(1))
  ultimately show ?thesis
    unfolding adds_def by blast
qed

lemma adds_fold:
  "(\<And>x g. adds ls g (f x g)) \<Longrightarrow> adds ls g (fold f xs g)"
proof (induction xs arbitrary: g)
  case Nil
  then show ?case by (simp add: adds_refl)
next
  case (Cons x xs)
  have "adds ls g (f x g)" by (rule Cons.prems)
  moreover have "adds ls (f x g) (fold f xs (f x g))"
    by (rule Cons.IH) (rule Cons.prems)
  ultimately show ?case
    by (simp add: adds_trans)
qed

lemma adds_keys_subset: "adds ls g g' \<Longrightarrow> set (keys g) \<subseteq> set (keys g')"
  by (auto simp: adds_def)

lemma adds_upsert:
  "(\<And>n. node_key (snd kf n) = node_key n) \<Longrightarrow> adds {l} g (upsert l kf g)"
  by (simp add: adds_def keys_upsert_eq)

lemma adds_load_category: "adds {Category} g (load_category row g)"
  by (simp add: adds_def keys_load_category)

lemma adds_load_product: "adds {Product} g (load_product row g)"
  by (simp add: adds_def keys_load_product)

lemma adds_load_customer: "adds {Customer} g (load_customer row g)"
  by (simp add: adds_def keys_load_customer)

lemma adds_load_order: "adds {Order} g (load_order row g)"
  by (simp add: adds_def keys_load_order)

lemma adds_load_order_item: "adds {} g (load_order_item row g)"
  by (simp add: adds_def keys_def)

lemma adds_load_event: "adds {} g (load_event row g)"
  by (simp add: adds_def keys_def)

text \<open>The nodes with a key stay the same nodes when no node with that key is added.\<close>

lemma node_ids_stable:
  assumes "adds ls g g'" and "l \<notin> ls \<or> (l, k) \<in> set (keys g)"
  shows "node_ids l k g' = node_ids l k g"
proof -
  from assms(1) obtain ks where ks: "keys g' = keys g @ ks"
    and new: "\<forall>k \<in> set ks. fst k \<in> ls \<and> k \<notin> set (keys g)"
    unfolding adds_def by blast
  have n: "(l, k) \<notin> set ks"
  proof
    assume "(l, k) \<in> set ks"
    with new have "fst (l, k) \<in> ls \<and> (l, k) \<notin> set (keys g)" by (rule bspec)
    with assms(2) show False by simp
  qed
  let ?n = "length (keys g)"
  have tail: "(keys g @ ks) ! i \<noteq> (l, k)" if "?n \<le> i" "i < ?n + length ks" for i
  proof -
    from that have "(keys g @ ks) ! i = ks ! (i - ?n)" "i - ?n < length ks"
      by (simp_all add: nth_append)
    then have "(keys g @ ks) ! i \<in> set ks" by simp
    with n show ?thesis by metis
  qed
  have e: "[i \<leftarrow> [?n..<?n + length ks]. (keys g @ ks) ! i = (l, k)] = []"
    unfolding filter_empty_conv using tail by simp
  have h: "[i \<leftarrow> [0..<?n]. (keys g @ ks) ! i = (l, k)] = [i \<leftarrow> [0..<?n]. keys g ! i = (l, k)]"
    by (rule filter_cong) (simp_all add: nth_append)
  have "node_ids l k g' = [i \<leftarrow> [0..<?n + length ks]. (keys g @ ks) ! i = (l, k)]"
    unfolding node_ids_keys ks by simp
  also have "\<dots> = [i \<leftarrow> [0..<?n]. (keys g @ ks) ! i = (l, k)]
                  @ [i \<leftarrow> [?n..<?n + length ks]. (keys g @ ks) ! i = (l, k)]"
    unfolding upt_add_eq_append [OF le0] by simp
  also have "\<dots> = [i \<leftarrow> [0..<?n]. keys g ! i = (l, k)]"
    unfolding e h by simp
  finally show ?thesis
    unfolding node_ids_keys .
qed

subsection \<open>Relationship keys only grow\<close>

lemma relkeys_cong: "rels g' = rels g \<Longrightarrow> relkeys g' = relkeys g"
  by (simp add: relkeys_def)

lemma relkeys_merge_rel:
  "relkeys (merge_rel t ab g) = insert (t, fst ab, snd ab) (relkeys g)"
  by (auto simp: relkeys_def merge_rel_def new_rel_def rel_key_def rel_between_def image_iff)

lemma relkeys_fold_merge_rel:
  "relkeys (fold (merge_rel t) ps g) = (\<lambda>ab. (t, fst ab, snd ab)) ` set ps \<union> relkeys g"
  by (induction ps arbitrary: g) (auto simp: relkeys_merge_rel)

lemma relkeys_set_rels:
  "(\<And>r. rel_key (f r) = rel_key r) \<Longrightarrow> relkeys (set_rels t ab f g) = relkeys g"
proof -
  assume k: "\<And>r. rel_key (f r) = rel_key r"
  have "map rel_key (map (\<lambda>r. if rel_between t (fst ab) (snd ab) r then f r else r) rs)
        = map rel_key rs" for rs
    by (induction rs) (simp_all add: k)
  from this [of "rels g"] have "set (map rel_key (rels (set_rels t ab f g))) = set (map rel_key (rels g))"
    by (simp add: set_rels_def)
  then show ?thesis
    by (simp add: relkeys_def)
qed

lemma relkeys_create_rel: "relkeys (create_rel r g) = insert (rel_key r) (relkeys g)"
  by (simp add: relkeys_def create_rel_def)

lemma merge_rel_present: "(t, fst ab, snd ab) \<in> relkeys g \<Longrightarrow> merge_rel t ab g = g"
  by (auto simp: relkeys_def merge_rel_def rel_key_def rel_between_def image_iff)

lemma fold_merge_rel_present:
  "\<forall>ab \<in> set ps. (t, fst ab, snd ab) \<in> relkeys g \<Longrightarrow> fold (merge_rel t) ps g = g"
  by (induction ps) (simp_all add: merge_rel_present)

subsection \<open>Later states\<close>

lemma later_refl: "later ls g g"
  by (simp add: later_def adds_refl)

lemma later_trans: "later ls g g' \<Longrightarrow> later ls g' g'' \<Longrightarrow> later ls g g''"
  unfolding later_def using adds_trans by blast

lemma later_mono: "later ls g g' \<Longrightarrow> ls \<subseteq> ls' \<Longrightarrow> later ls' g g'"
  unfolding later_def using adds_mono by blast

lemma later_fold: "(\<And>x g. later ls g (f x g)) \<Longrightarrow> later ls g (fold f xs g)"
proof (induction xs arbitrary: g)
  case Nil
  then show ?case by (simp add: later_refl)
next
  case (Cons x xs)
  have "later ls g (f x g)" by (rule Cons.prems)
  moreover have "later ls (f x g) (fold f xs (f x g))"
    by (rule Cons.IH) (rule Cons.prems)
  ultimately show ?case
    by (simp add: later_trans)
qed

lemma later_load_category: "later {Category} g (load_category row g)"
proof -
  have "relkeys (load_category row g) = relkeys g"
    by (simp add: relkeys_def load_category_def)
  then show ?thesis
    by (simp add: later_def adds_load_category)
qed

lemma later_load_customer: "later {Customer} g (load_customer row g)"
proof -
  have "relkeys (load_customer row g) = relkeys g"
    by (simp add: relkeys_def load_customer_def)
  then show ?thesis
    by (simp add: later_def adds_load_customer)
qed

lemma later_load_product: "later {Product} g (load_product row g)"
proof -
  have "relkeys g \<subseteq> relkeys (load_product row g)"
    unfolding load_product_def Let_def relkeys_fold_merge_rel
    by (simp add: relkeys_def le_supI2)
  then show ?thesis
    by (simp add: later_def adds_load_product)
qed

lemma later_load_order: "later {Order} g (load_order row g)"
proof -
  have "relkeys g \<subseteq> relkeys (load_order row g)"
    unfolding load_order_def Let_def relkeys_fold_merge_rel
    by (simp add: relkeys_def le_supI2)
  then show ?thesis
    by (simp add: later_def adds_load_order)
qed

lemma relkeys_fold_grow:
  "(\<And>x g. relkeys g \<subseteq> relkeys (f x g)) \<Longrightarrow> relkeys g \<subseteq> relkeys (fold f xs g)"
proof (induction xs arbitrary: g)
  case Nil
  then show ?case by simp
next
  case (Cons x xs)
  have "relkeys g \<subseteq> relkeys (f x g)" by (rule Cons.prems)
  also have "\<dots> \<subseteq> relkeys (fold f xs (f x g))"
    by (rule Cons.IH) (rule Cons.prems)
  finally show ?case by simp
qed

lemma later_load_order_item: "later {} g (load_order_item row g)"
proof -
  have "relkeys g \<subseteq> relkeys (load_order_item row g)"
    unfolding load_order_item_def
  proof (rule relkeys_fold_grow)
    fix ab g'
    show "relkeys g' \<subseteq> relkeys (set_rels CONTAINS ab (\<lambda>r. r\<lparr>quantity := Some (item_quantity row)\<rparr>)
                (merge_rel CONTAINS ab g'))"
      by (simp add: relkeys_set_rels rel_key_def relkeys_merge_rel subset_insertI)
  qed
  then show ?thesis
    by (simp add: later_def adds_load_order_item)
qed

lemma later_load_event: "later {} g (load_event row g)"
proof -
  have "relkeys g \<subseteq> relkeys (load_event row g)"
    unfolding load_event_def
    by (rule relkeys_fold_grow) (simp add: relkeys_create_rel subset_insertI)
  then show ?thesis
    by (simp add: later_def adds_load_event)
qed

lemma fold_establishes:
  assumes "\<And>x g. Q x (f x g)" and "\<And>x y g. Q x g \<Longrightarrow> Q x (f y g)"
  shows "\<forall>x \<in> set xs. Q x (fold f xs g)"
proof (induction xs arbitrary: g)
  case Nil
  then show ?case by simp
next
  case (Cons y ys)
  have "Q y (fold f ys (f y g))"
    by (rule fold_preserves [where P = "Q y"]) (erule assms(2), rule assms(1))
  with Cons.IH [of "f y g"] show ?case by simp
qed

subsection \<open>Links stay\<close>

lemma linked_later:
  assumes "linked t k1 k2 g" and "later ls g g'"
    and "fst k1 \<notin> ls \<or> k1 \<in> set (keys g)" and "fst k2 \<notin> ls \<or> k2 \<in> set (keys g)"
  shows "linked t k1 k2 g'"
proof -
  from assms(2) have a: "adds ls g g'" and r: "relkeys g \<subseteq> relkeys g'"
    by (simp_all add: later_def)
  have "node_ids (fst k1) (snd k1) g' = node_ids (fst k1) (snd k1) g"
    using a assms(3) by (intro node_ids_stable) simp_all
  moreover have "node_ids (fst k2) (snd k2) g' = node_ids (fst k2) (snd k2) g"
    using a assms(4) by (intro node_ids_stable) simp_all
  ultimately show ?thesis
    using assms(1) r unfolding linked_def by auto
qed

lemma present_later: "k \<in> set (keys g) \<Longrightarrow> later ls g g' \<Longrightarrow> k \<in> set (keys g')"
  unfolding later_def using adds_keys_subset by blast

lemma product_linked_later:
  "product_linked row g \<Longrightarrow> later ls g g' \<Longrightarrow> Category \<notin> ls \<Longrightarrow> product_linked row g'"
  unfolding product_linked_def
  using linked_later [of IN_CATEGORY "(Product, prod_id row)" "(Category, prod_category_id row)" g ls g']
    present_later [of "(Product, prod_id row)" g ls g']
  by simp

lemma order_linked_later:
  "order_linked row g \<Longrightarrow> later ls g g' \<Longrightarrow> Customer \<notin> ls \<Longrightarrow> order_linked row g'"
  unfolding order_linked_def
  using linked_later [of PLACED "(Customer, ord_customer_id row)" "(Order, ord_id row)" g ls g']
    present_later [of "(Order, ord_id row)" g ls g']
  by simp

lemma item_linked_later:
  "item_linked row g \<Longrightarrow> later {} g g' \<Longrightarrow> item_linked row g'"
  unfolding item_linked_def
  using linked_later [of CONTAINS "(Order, item_order_id row)" "(Product, item_product_id row)" g "{}" g']
  by simp

subsection \<open>What a row establishes\<close>

lemma linked_cong:
  "keys g' = keys g \<Longrightarrow> relkeys g' = relkeys g \<Longrightarrow> linked t k1 k2 g' = linked t k1 k2 g"
  by (simp add: linked_def node_ids_keys)

lemma linked_fold_merge_rel:
  assumes "set ps = set (node_ids (fst k1) (snd k1) g) \<times> set (node_ids (fst k2) (snd k2) g)"
  shows "linked t k1 k2 (fold (merge_rel t) ps g)"
proof -
  let ?g = "fold (merge_rel t) ps g"
  have k: "keys ?g = keys g" by (simp add: keys_def)
  have "(t, a, b) \<in> relkeys ?g"
    if "a \<in> set (node_ids (fst k1) (snd k1) g)" "b \<in> set (node_ids (fst k2) (snd k2) g)" for a b
  proof -
    from that assms have "(a, b) \<in> set ps" by simp
    then have "(t, fst (a, b), snd (a, b)) \<in> (\<lambda>ab. (t, fst ab, snd ab)) ` set ps"
      by (rule imageI)
    then show ?thesis by (simp add: relkeys_fold_merge_rel)
  qed
  then show ?thesis
    unfolding linked_def node_ids_cong [OF k] by blast
qed

lemma load_product_eq:
  "load_product row g =
     fold (merge_rel IN_CATEGORY)
       [(p, cat). p \<leftarrow> node_ids Product (prod_id row) (upsert Product (product_write row) g),
                  cat \<leftarrow> node_ids Category (prod_category_id row)
                          (upsert Product (product_write row) g)]
       (upsert Product (product_write row) g)"
  by (simp add: load_product_def Let_def upsert_def product_write_def)

lemma load_order_eq:
  "load_order row g =
     fold (merge_rel PLACED)
       [(c, od). od \<leftarrow> node_ids Order (ord_id row) (upsert Order (order_write row) g),
                 c \<leftarrow> node_ids Customer (ord_customer_id row)
                        (upsert Order (order_write row) g)]
       (upsert Order (order_write row) g)"
  by (simp add: load_order_def Let_def upsert_def order_write_def)

lemma key_present_upsert:
  "(\<And>n. node_key (snd kf n) = node_key n) \<Longrightarrow> (l, fst kf) \<in> set (keys (upsert l kf g))"
  by (simp add: keys_upsert_eq)

lemma product_linked_load_product: "product_linked row (load_product row g)"
proof -
  let ?g1 = "upsert Product (product_write row) g"
  have p: "(Product, prod_id row) \<in> set (keys ?g1)"
    using key_present_upsert [of "product_write row" Product g]
    by (simp add: product_write_def node_key_def)
  have k: "keys (load_product row g) = keys ?g1"
    unfolding load_product_eq by (simp add: keys_def)
  have "linked IN_CATEGORY (Product, prod_id row) (Category, prod_category_id row)
          (load_product row g)"
    unfolding load_product_eq by (rule linked_fold_merge_rel) auto
  with p k show ?thesis
    by (simp add: product_linked_def)
qed

lemma order_linked_load_order: "order_linked row (load_order row g)"
proof -
  let ?g1 = "upsert Order (order_write row) g"
  have p: "(Order, ord_id row) \<in> set (keys ?g1)"
    using key_present_upsert [of "order_write row" Order g]
    by (simp add: order_write_def node_key_def)
  have k: "keys (load_order row g) = keys ?g1"
    unfolding load_order_eq by (simp add: keys_def)
  have "linked PLACED (Customer, ord_customer_id row) (Order, ord_id row) (load_order row g)"
    unfolding load_order_eq by (rule linked_fold_merge_rel) auto
  with p k show ?thesis
    by (simp add: order_linked_def)
qed

lemma relkeys_fold_set_merge:
  assumes "\<And>r. rel_key (f r) = rel_key r"
  shows "relkeys (fold (\<lambda>ab g'. set_rels t ab f (merge_rel t ab g')) ps g)
           = (\<lambda>ab. (t, fst ab, snd ab)) ` set ps \<union> relkeys g"
  by (induction ps arbitrary: g) (auto simp: relkeys_set_rels [OF assms] relkeys_merge_rel)

lemma item_linked_load_order_item: "item_linked row (load_order_item row g)"
proof -
  let ?g = "load_order_item row g"
  have k: "keys ?g = keys g" by (simp add: keys_def)
  have r: "relkeys ?g =
      (\<lambda>ab. (CONTAINS, fst ab, snd ab)) `
        set [(od, p). od \<leftarrow> node_ids Order (item_order_id row) g,
                      p \<leftarrow> node_ids Product (item_product_id row) g] \<union> relkeys g"
    unfolding load_order_item_def
    by (rule relkeys_fold_set_merge) (simp add: rel_key_def)
  have "(CONTAINS, a, b) \<in> relkeys ?g"
    if "a \<in> set (node_ids Order (item_order_id row) g)"
      "b \<in> set (node_ids Product (item_product_id row) g)" for a b
  proof -
    from that have "(a, b) \<in> set [(od, p). od \<leftarrow> node_ids Order (item_order_id row) g,
                      p \<leftarrow> node_ids Product (item_product_id row) g]"
      unfolding set_pairs by simp
    then have "(CONTAINS, fst (a, b), snd (a, b)) \<in> (\<lambda>ab. (CONTAINS, fst ab, snd ab)) `
        set [(od, p). od \<leftarrow> node_ids Order (item_order_id row) g,
                      p \<leftarrow> node_ids Product (item_product_id row) g]"
      by (rule imageI)
    then show ?thesis unfolding r by simp
  qed
  then show ?thesis
    unfolding item_linked_def linked_def fst_conv snd_conv node_ids_cong [OF k] by blast
qed

subsection \<open>Settled nodes stay settled\<close>

lemma settled_cong: "nodes g' = nodes g \<Longrightarrow> settled l kfs g' = settled l kfs g"
  by (simp add: settled_def)

lemma settled_upsert_other:
  assumes "settled l kfs g" and "l' \<noteq> l" and "\<And>n. node_key (snd kf n) = node_key n"
  shows "settled l kfs (upsert l' kf g)"
proof -
  have "touch l kfs (touch1 l' kf n) = touch1 l' kf n"
    if "n \<in> set (nodes g) \<or> n = new_node l' (fst kf)" for n
  proof (cases "label n = l' \<and> ident n = fst kf")
    case True
    then have "label (snd kf n) = l'"
      using assms(3) [of n] by (simp add: node_key_def)
    with assms(2) have "touch l kfs (snd kf n) = snd kf n"
      by (intro touch_other_label) simp
    with True show ?thesis by (simp add: touch1_def)
  next
    case False
    then have b: "touch1 l' kf n = n" by (auto simp: touch1_def)
    from False that have "n \<in> set (nodes g)" by (auto simp: new_node_def)
    with assms(1) have "touch l kfs n = n" by (simp add: settled_def)
    then show ?thesis by (simp only: b)
  qed
  then show ?thesis
    unfolding settled_def by (auto simp: nodes_upsert split: if_splits)
qed

lemma settled_load_category:
  "settled l kfs g \<Longrightarrow> l \<noteq> Category \<Longrightarrow> settled l kfs (load_category row g)"
  unfolding load_category_upsert
  by (rule settled_upsert_other) (auto simp: category_write_def node_key_def)

lemma settled_load_customer:
  "settled l kfs g \<Longrightarrow> l \<noteq> Customer \<Longrightarrow> settled l kfs (load_customer row g)"
  unfolding load_customer_upsert
  by (rule settled_upsert_other) (auto simp: customer_write_def node_key_def)

lemma settled_load_product:
  "settled l kfs g \<Longrightarrow> l \<noteq> Product \<Longrightarrow> settled l kfs (load_product row g)"
  unfolding settled_cong [OF nodes_load_product]
  by (rule settled_upsert_other) (auto simp: product_write_def node_key_def)

lemma settled_load_order:
  "settled l kfs g \<Longrightarrow> l \<noteq> Order \<Longrightarrow> settled l kfs (load_order row g)"
  unfolding settled_cong [OF nodes_load_order]
  by (rule settled_upsert_other) (auto simp: order_write_def node_key_def)

lemma settled_load_order_item: "settled l kfs g \<Longrightarrow> settled l kfs (load_order_item row g)"
  by (simp add: settled_def)

lemma settled_load_event: "settled l kfs g \<Longrightarrow> settled l kfs (load_event row g)"
  by (simp add: settled_def)

subsection \<open>The node tables, first and second time\<close>

lemma fold_load_category_upsert:
  "fold load_category rows g = fold (upsert Category) (map category_write rows) g"
proof -
  have "load_category = upsert Category \<circ> category_write"
    by (rule ext)+ (simp add: load_category_upsert)
  then show ?thesis by (simp add: fold_map)
qed

lemma fold_load_customer_upsert:
  "fold load_customer rows g = fold (upsert Customer) (map customer_write rows) g"
proof -
  have "load_customer = upsert Customer \<circ> customer_write"
    by (rule ext)+ (simp add: load_customer_upsert)
  then show ?thesis by (simp add: fold_map)
qed

lemma nodes_upsert_cong: "nodes g = nodes g' \<Longrightarrow> nodes (upsert l kf g) = nodes (upsert l kf g')"
  by (simp add: nodes_upsert keys_def)

lemma nodes_fold_load_product:
  "nodes g = nodes g' \<Longrightarrow>
   nodes (fold load_product rows g) = nodes (fold (upsert Product) (map product_write rows) g')"
proof (induction rows arbitrary: g g')
  case Nil
  then show ?case by simp
next
  case (Cons row rows)
  have "nodes (load_product row g) = nodes (upsert Product (product_write row) g')"
    unfolding nodes_load_product using Cons.prems by (rule nodes_upsert_cong)
  from Cons.IH [OF this] show ?case by simp
qed

lemma nodes_fold_load_order:
  "nodes g = nodes g' \<Longrightarrow>
   nodes (fold load_order rows g) = nodes (fold (upsert Order) (map order_write rows) g')"
proof (induction rows arbitrary: g g')
  case Nil
  then show ?case by simp
next
  case (Cons row rows)
  have "nodes (load_order row g) = nodes (upsert Order (order_write row) g')"
    unfolding nodes_load_order using Cons.prems by (rule nodes_upsert_cong)
  from Cons.IH [OF this] show ?case by simp
qed

lemma settled_categories: "settled Category (map category_write rows) (fold load_category rows g)"
  unfolding fold_load_category_upsert
  by (rule settled_fold_upsert) (rule table_writes_category)

lemma settled_customers: "settled Customer (map customer_write rows) (fold load_customer rows g)"
  unfolding fold_load_customer_upsert
  by (rule settled_fold_upsert) (rule table_writes_customer)

lemma settled_products: "settled Product (map product_write rows) (fold load_product rows g)"
  unfolding settled_cong [OF nodes_fold_load_product [OF refl]]
  by (rule settled_fold_upsert) (rule table_writes_product)

lemma settled_orders: "settled Order (map order_write rows) (fold load_order rows g)"
  unfolding settled_cong [OF nodes_fold_load_order [OF refl]]
  by (rule settled_fold_upsert) (rule table_writes_order)

lemma category_present: "(Category, cat_id row) \<in> set (keys (load_category row g))"
  by (simp add: keys_load_category)

lemma customer_present: "(Customer, cust_id row) \<in> set (keys (load_customer row g))"
  by (simp add: keys_load_customer)

text \<open>The second time: a table that finds its keys, its links and its values changes nothing.\<close>

lemma fixed_categories:
  assumes "\<forall>row \<in> set rows. (Category, cat_id row) \<in> set (keys g)"
    and "settled Category (map category_write rows) g"
  shows "fold load_category rows g = g"
  unfolding fold_load_category_upsert
  using table_writes_category _ assms(2)
proof (rule fold_upsert_fixed)
  show "\<forall>kf \<in> set (map category_write rows). (Category, fst kf) \<in> set (keys g)"
    using assms(1) by (simp add: category_write_def)
qed

lemma fixed_customers:
  assumes "\<forall>row \<in> set rows. (Customer, cust_id row) \<in> set (keys g)"
    and "settled Customer (map customer_write rows) g"
  shows "fold load_customer rows g = g"
  unfolding fold_load_customer_upsert
  using table_writes_customer _ assms(2)
proof (rule fold_upsert_fixed)
  show "\<forall>kf \<in> set (map customer_write rows). (Customer, fst kf) \<in> set (keys g)"
    using assms(1) by (simp add: customer_write_def)
qed

lemma upsert_present:
  assumes "(l, fst kf) \<in> set (keys g)" and "\<And>n. node_key (snd kf n) = node_key n"
  shows "keys (upsert l kf g) = keys g" and "relkeys (upsert l kf g) = relkeys g"
  using assms by (simp_all add: keys_upsert_eq relkeys_def)

lemma load_product_linked:
  assumes "product_linked row g"
  shows "load_product row g = upsert Product (product_write row) g"
proof -
  let ?g1 = "upsert Product (product_write row) g"
  from assms have p: "(Product, fst (product_write row)) \<in> set (keys g)"
    by (simp add: product_linked_def product_write_def)
  have k: "keys ?g1 = keys g" and r: "relkeys ?g1 = relkeys g"
    using upsert_present [OF p] by (simp_all add: product_write_def node_key_def)
  from assms have "linked IN_CATEGORY (Product, prod_id row) (Category, prod_category_id row) ?g1"
    unfolding product_linked_def linked_cong [OF k r] by simp
  then have "\<forall>ab \<in> set [(p, cat). p \<leftarrow> node_ids Product (prod_id row) ?g1,
                  cat \<leftarrow> node_ids Category (prod_category_id row) ?g1].
        (IN_CATEGORY, fst ab, snd ab) \<in> relkeys ?g1"
    unfolding linked_def set_pairs by auto
  then show ?thesis
    unfolding load_product_eq by (rule fold_merge_rel_present)
qed

lemma load_order_linked:
  assumes "order_linked row g"
  shows "load_order row g = upsert Order (order_write row) g"
proof -
  let ?g1 = "upsert Order (order_write row) g"
  from assms have p: "(Order, fst (order_write row)) \<in> set (keys g)"
    by (simp add: order_linked_def order_write_def)
  have k: "keys ?g1 = keys g" and r: "relkeys ?g1 = relkeys g"
    using upsert_present [OF p] by (simp_all add: order_write_def node_key_def)
  from assms have "linked PLACED (Customer, ord_customer_id row) (Order, ord_id row) ?g1"
    unfolding order_linked_def linked_cong [OF k r] by simp
  then have "\<forall>ab \<in> set [(c, od). od \<leftarrow> node_ids Order (ord_id row) ?g1,
                 c \<leftarrow> node_ids Customer (ord_customer_id row) ?g1].
        (PLACED, fst ab, snd ab) \<in> relkeys ?g1"
    unfolding linked_def by auto
  then show ?thesis
    unfolding load_order_eq by (rule fold_merge_rel_present)
qed

lemma fold_load_product_linked:
  "\<forall>row \<in> set rows. product_linked row g \<Longrightarrow>
   fold load_product rows g = fold (upsert Product) (map product_write rows) g"
proof (induction rows arbitrary: g)
  case Nil
  then show ?case by simp
next
  case (Cons row rows)
  let ?g1 = "upsert Product (product_write row) g"
  from Cons.prems have l: "product_linked row g" by simp
  then have p: "(Product, fst (product_write row)) \<in> set (keys g)"
    by (simp add: product_linked_def product_write_def)
  have k: "keys ?g1 = keys g" and r: "relkeys ?g1 = relkeys g"
    using upsert_present [OF p] by (simp_all add: product_write_def node_key_def)
  from Cons.prems have "\<forall>row' \<in> set rows. product_linked row' ?g1"
    unfolding product_linked_def linked_cong [OF k r] k by simp
  from Cons.IH [OF this] show ?case
    by (simp add: load_product_linked [OF l])
qed

lemma fold_load_order_linked:
  "\<forall>row \<in> set rows. order_linked row g \<Longrightarrow>
   fold load_order rows g = fold (upsert Order) (map order_write rows) g"
proof (induction rows arbitrary: g)
  case Nil
  then show ?case by simp
next
  case (Cons row rows)
  let ?g1 = "upsert Order (order_write row) g"
  from Cons.prems have l: "order_linked row g" by simp
  then have p: "(Order, fst (order_write row)) \<in> set (keys g)"
    by (simp add: order_linked_def order_write_def)
  have k: "keys ?g1 = keys g" and r: "relkeys ?g1 = relkeys g"
    using upsert_present [OF p] by (simp_all add: order_write_def node_key_def)
  from Cons.prems have "\<forall>row' \<in> set rows. order_linked row' ?g1"
    unfolding order_linked_def linked_cong [OF k r] k by simp
  from Cons.IH [OF this] show ?case
    by (simp add: load_order_linked [OF l])
qed

lemma fixed_products:
  assumes "\<forall>row \<in> set rows. product_linked row g"
    and "settled Product (map product_write rows) g"
  shows "fold load_product rows g = g"
  unfolding fold_load_product_linked [OF assms(1)]
  using table_writes_product _ assms(2)
proof (rule fold_upsert_fixed)
  show "\<forall>kf \<in> set (map product_write rows). (Product, fst kf) \<in> set (keys g)"
    using assms(1) by (simp add: product_write_def product_linked_def)
qed

lemma fixed_orders:
  assumes "\<forall>row \<in> set rows. order_linked row g"
    and "settled Order (map order_write rows) g"
  shows "fold load_order rows g = g"
  unfolding fold_load_order_linked [OF assms(1)]
  using table_writes_order _ assms(2)
proof (rule fold_upsert_fixed)
  show "\<forall>kf \<in> set (map order_write rows). (Order, fst kf) \<in> set (keys g)"
    using assms(1) by (simp add: order_write_def order_linked_def)
qed

subsection \<open>The order-items table, first and second time\<close>

lemma targets_cong: "keys g' = keys g \<Longrightarrow> targets g' row r = targets g row r"
  by (simp add: targets_def node_ids_keys)

lemma requant1_cong: "keys g' = keys g \<Longrightarrow> requant1 g' row r = requant1 g row r"
  by (simp add: requant1_def targets_cong [of g' g])

lemma requantify_cong: "keys g' = keys g \<Longrightarrow> requantify g' rows r = requantify g rows r"
proof -
  assume "keys g' = keys g"
  then have "requant1 g' = requant1 g"
    by (intro ext) (rule requant1_cong [of g' g])
  then show ?thesis by (simp add: requantify_def)
qed

lemma rel_key_requant1 [simp]: "rel_key (requant1 g row r) = rel_key r"
  by (simp add: requant1_def rel_key_def)

lemma targets_requant1 [simp]: "targets g row' (requant1 g row r) = targets g row' r"
  by (simp add: requant1_def targets_def)

lemma requantify_snoc: "requantify g (rows @ [row]) r = requant1 g row (requantify g rows r)"
  by (simp add: requantify_def)

text \<open>The table changes the quantity of a relationship, and nothing else of it.\<close>

lemma requantify_quantity: "\<exists>q. requantify g rows r = r\<lparr>quantity := q\<rparr>"
proof (induction rows rule: rev_induct)
  case Nil
  have "requantify g [] r = r\<lparr>quantity := quantity r\<rparr>"
    by (simp add: requantify_def)
  then show ?case by (rule exI)
next
  case (snoc row rows)
  then obtain q where q: "requantify g rows r = r\<lparr>quantity := q\<rparr>" by blast
  show ?case
  proof (cases "targets g row (r\<lparr>quantity := q\<rparr>)")
    case True
    then have "requantify g (rows @ [row]) r = r\<lparr>quantity := Some (item_quantity row)\<rparr>"
      by (simp add: requantify_snoc q requant1_def)
    then show ?thesis by (rule exI)
  next
    case False
    then have "requantify g (rows @ [row]) r = r\<lparr>quantity := q\<rparr>"
      by (simp add: requantify_snoc q requant1_def)
    then show ?thesis by (rule exI)
  qed
qed

lemma targets_requantify [simp]: "targets g row (requantify g rows r) = targets g row r"
proof -
  obtain q where "requantify g rows r = r\<lparr>quantity := q\<rparr>"
    using requantify_quantity by blast
  then show ?thesis by (simp add: targets_def)
qed

lemma between_fold_put_other_type:
  assumes "\<And>r. rel_key (f r) = rel_key r" and "t' \<noteq> t"
  shows "between (fold (\<lambda>ab g'. set_rels t ab f (merge_rel t ab g')) ps g) t' a b
           = between g t' a b"
proof (induction ps arbitrary: g)
  case Nil
  then show ?case by simp
next
  case (Cons ab ps)
  have k: "rel_between t' a b (f r) \<longleftrightarrow> rel_between t' a b r" for r
    using assms(1) [of r] by (simp add: rel_key_def rel_between_def)
  have x: "rel_between t (fst ab) (snd ab) r \<Longrightarrow> \<not> rel_between t' a b r" for r
    using assms(2) by (auto simp: rel_between_def)
  have m: "[r \<leftarrow> map (\<lambda>r. if rel_between t (fst ab) (snd ab) r then f r else r) rs.
              rel_between t' a b r] = [r \<leftarrow> rs. rel_between t' a b r]" for rs
    by (induction rs) (auto simp: k x)
  have n: "\<not> rel_between t' a b (new_rel t (fst ab) (snd ab))"
    using assms(2) by (auto simp: rel_between_def new_rel_def)
  have "between (set_rels t ab f (merge_rel t ab g)) t' a b = between g t' a b"
    unfolding between_def set_rels_def merge_rel_def by (simp add: m n)
  with Cons.IH [of "set_rels t ab f (merge_rel t ab g)"] show ?case by simp
qed

lemma in_between: "r \<in> set (rels g) \<Longrightarrow> r \<in> set (between g (rtype r) (src r) (tgt r))"
  by (simp add: between_def rel_between_def)

lemma between_subset: "r \<in> set (between g t a b) \<Longrightarrow> r \<in> set (rels g) \<and> rel_between t a b r"
  by (simp add: between_def)

lemma quantity_written:
  "r \<in> set (if xs = [] then [n\<lparr>quantity := Some q\<rparr>] else map (\<lambda>r. r\<lparr>quantity := Some q\<rparr>) xs)
   \<Longrightarrow> quantity r = Some q"
  by (cases "xs = []") auto

text \<open>After a row, a relationship either is one that the row targets and has the
  quantity of the row, or is an old one that the row does not target.\<close>

lemma rels_load_order_item:
  assumes "r \<in> set (rels (load_order_item row g))"
  shows "(targets g row r \<and> quantity r = Some (item_quantity row))
       \<or> (\<not> targets g row r \<and> r \<in> set (rels g))"
proof (cases "rtype r = CONTAINS")
  case True
  from in_between [OF assms] True
  have b: "r \<in> set (between (load_order_item row g) CONTAINS (src r) (tgt r))" by simp
  show ?thesis
  proof (cases "src r \<in> set (node_ids Order (item_order_id row) g)
         \<and> tgt r \<in> set (node_ids Product (item_product_id row) g)")
    case t: True
    with True have "targets g row r" by (simp add: targets_def)
    moreover have "quantity r = Some (item_quantity row)"
    proof -
      from t have "between (load_order_item row g) CONTAINS (src r) (tgt r) =
          (if between g CONTAINS (src r) (tgt r) = []
           then [(new_rel CONTAINS (src r) (tgt r))\<lparr>quantity := Some (item_quantity row)\<rparr>]
           else map (\<lambda>r. r\<lparr>quantity := Some (item_quantity row)\<rparr>)
                  (between g CONTAINS (src r) (tgt r)))"
        by (simp add: between_load_order_item)
      with b show ?thesis
        by (simp only: quantity_written)
    qed
    ultimately show ?thesis by simp
  next
    case f: False
    then have "\<not> targets g row r" by (simp add: targets_def)
    moreover from b f have "r \<in> set (between g CONTAINS (src r) (tgt r))"
      by (simp add: between_load_order_item)
    then have "r \<in> set (rels g)" by (simp add: between_def)
    ultimately show ?thesis by simp
  qed
next
  case False
  then have n: "\<not> targets g row r" by (simp add: targets_def)
  have "between (load_order_item row g) (rtype r) (src r) (tgt r)
        = between g (rtype r) (src r) (tgt r)"
    unfolding load_order_item_def
    using False by (intro between_fold_put_other_type) (simp_all add: rel_key_def)
  with in_between [OF assms] have "r \<in> set (between g (rtype r) (src r) (tgt r))"
    by simp
  then have "r \<in> set (rels g)"
    by (simp add: between_def)
  with n show ?thesis by simp
qed

lemma quantities_settled_fold:
  "quantities_settled rows (fold load_order_item rows g)"
proof (induction rows rule: rev_induct)
  case Nil
  then show ?case by (simp add: quantities_settled_def requantify_def)
next
  case (snoc row rows)
  let ?G = "fold load_order_item rows g"
  let ?G' = "fold load_order_item (rows @ [row]) g"
  have k: "keys ?G' = keys ?G" by (simp add: keys_def)
  have "requantify ?G (rows @ [row]) r = r" if "r \<in> set (rels ?G')" for r
  proof -
    from that have "r \<in> set (rels (load_order_item row ?G))" by simp
    from rels_load_order_item [OF this]
    consider "targets ?G row r" "quantity r = Some (item_quantity row)"
      | "\<not> targets ?G row r" "r \<in> set (rels ?G)"
      by blast
    then show ?thesis
    proof cases
      case 1
      obtain q where q: "requantify ?G rows r = r\<lparr>quantity := q\<rparr>"
        using requantify_quantity by blast
      have "requantify ?G (rows @ [row]) r = (requantify ?G rows r)\<lparr>quantity := Some (item_quantity row)\<rparr>"
        unfolding requantify_snoc using 1(1) by (simp add: requant1_def)
      also have "\<dots> = r\<lparr>quantity := Some (item_quantity row)\<rparr>"
        by (simp add: q)
      also have "\<dots> = r" using 1(2) by simp
      finally show ?thesis .
    next
      case 2
      from snoc.IH 2(2) have "requantify ?G rows r = r"
        by (simp add: quantities_settled_def)
      then show ?thesis
        unfolding requantify_snoc using 2(1) by (simp add: requant1_def)
    qed
  qed
  then show ?case
    unfolding quantities_settled_def requantify_cong [OF k] by blast
qed

lemma rels_fold_set_merge_present:
  assumes k: "\<And>r. rel_key (f r) = rel_key r" and i: "\<And>r. f (f r) = f r"
    and p: "\<forall>ab \<in> set ps. (t, fst ab, snd ab) \<in> relkeys g"
  shows "rels (fold (\<lambda>ab g'. set_rels t ab f (merge_rel t ab g')) ps g) =
           map (\<lambda>r. if rtype r = t \<and> (src r, tgt r) \<in> set ps then f r else r) (rels g)"
  using p
proof (induction ps arbitrary: g)
  case Nil
  then show ?case by simp
next
  case (Cons ab ps)
  let ?g1 = "set_rels t ab f (merge_rel t ab g)"
  let ?h = "\<lambda>r. if rel_between t (fst ab) (snd ab) r then f r else r"
  let ?H = "\<lambda>r. if rtype r = t \<and> (src r, tgt r) \<in> set ps then f r else r"
  from Cons.prems have m: "merge_rel t ab g = g"
    by (simp add: merge_rel_present)
  have r1: "rels ?g1 = map ?h (rels g)"
    by (simp add: m set_rels_def)
  have "relkeys ?g1 = relkeys g"
    by (simp add: m relkeys_set_rels [OF k])
  with Cons.prems have "\<forall>ab' \<in> set ps. (t, fst ab', snd ab') \<in> relkeys ?g1"
    by simp
  from Cons.IH [OF this] have
    "rels (fold (\<lambda>ab g'. set_rels t ab f (merge_rel t ab g')) ps ?g1) = map ?H (rels ?g1)" .
  also have "\<dots> = map (\<lambda>r. ?H (?h r)) (rels g)"
    by (simp add: r1 comp_def)
  also have "\<dots> = map (\<lambda>r. if rtype r = t \<and> (src r, tgt r) \<in> set (ab # ps) then f r else r)
                     (rels g)"
  proof (rule map_cong [OF refl])
    fix r
    have e: "rtype (f r) = rtype r" "src (f r) = src r" "tgt (f r) = tgt r"
      using k [of r] by (simp_all add: rel_key_def)
    show "?H (?h r) = (if rtype r = t \<and> (src r, tgt r) \<in> set (ab # ps) then f r else r)"
      by (cases ab) (auto simp: rel_between_def e i)
  qed
  finally show ?case by simp
qed

lemma rels_load_order_item_linked:
  assumes "item_linked row g"
  shows "rels (load_order_item row g) = map (requant1 g row) (rels g)"
proof -
  let ?ps = "[(od, p). od \<leftarrow> node_ids Order (item_order_id row) g,
                       p \<leftarrow> node_ids Product (item_product_id row) g]"
  from assms have p: "\<forall>ab \<in> set ?ps. (CONTAINS, fst ab, snd ab) \<in> relkeys g"
    unfolding item_linked_def linked_def set_pairs by auto
  have "rels (load_order_item row g) =
          map (\<lambda>r. if rtype r = CONTAINS \<and> (src r, tgt r) \<in> set ?ps
                    then r\<lparr>quantity := Some (item_quantity row)\<rparr> else r) (rels g)"
    unfolding load_order_item_def
    by (rule rels_fold_set_merge_present [OF _ _ p]) (simp_all add: rel_key_def)
  also have "\<dots> = map (requant1 g row) (rels g)"
    unfolding set_pairs by (simp add: requant1_def targets_def)
  finally show ?thesis .
qed

lemma rels_fold_load_order_item_linked:
  "keys g = keys g0 \<Longrightarrow> \<forall>row \<in> set rows. item_linked row g \<Longrightarrow>
   rels (fold load_order_item rows g) = map (requantify g0 rows) (rels g)"
proof (induction rows arbitrary: g)
  case Nil
  then show ?case by (simp add: requantify_def)
next
  case (Cons row rows)
  let ?g1 = "load_order_item row g"
  have k: "keys ?g1 = keys g0"
    using Cons.prems(1) by (simp add: keys_def)
  have l: "\<forall>row' \<in> set rows. item_linked row' ?g1"
    using Cons.prems(2) item_linked_later [OF _ later_load_order_item] by simp
  from Cons.prems(2) have "rels ?g1 = map (requant1 g row) (rels g)"
    by (simp add: rels_load_order_item_linked)
  also have "requant1 g row = requant1 g0 row"
    by (intro ext) (rule requant1_cong [OF Cons.prems(1)])
  finally have r1: "rels ?g1 = map (requant1 g0 row) (rels g)" .
  from Cons.IH [OF k l] show ?case
    by (simp add: r1 requantify_def comp_def)
qed

lemma fixed_items:
  assumes "\<forall>row \<in> set rows. item_linked row g" and "quantities_settled rows g"
  shows "fold load_order_item rows g = g"
proof (rule graph_eqI)
  show "nodes (fold load_order_item rows g) = nodes g" by simp
  have "rels (fold load_order_item rows g) = map (requantify g rows) (rels g)"
    using refl assms(1) by (rule rels_fold_load_order_item_linked)
  also have "\<dots> = rels g"
    using assms(2) by (simp add: quantities_settled_def map_idI)
  finally show "rels (fold load_order_item rows g) = rels g" .
qed

text \<open>On a loaded graph, the first five tables of a second load change nothing.\<close>

lemma loaded_fixed:
  assumes "loaded t g"
  shows "fold load_order_item (order_items_df t) (load_entities t g) = g"
proof -
  from assms have
    c: "fold load_category (categories_df t) g = g"
    and p: "fold load_product (products_df t) g = g"
    and u: "fold load_customer (customers_df t) g = g"
    and o: "fold load_order (orders_df t) g = g"
    and i: "fold load_order_item (order_items_df t) g = g"
    unfolding loaded_def
    by (simp_all add: fixed_categories fixed_products fixed_customers fixed_orders fixed_items)
  show ?thesis
    by (simp add: load_entities_def c p u o i)
qed

subsection \<open>A load leaves a loaded graph\<close>

lemma later_after_items: "later {} g (fold load_event evs g)"
  by (rule later_fold) (rule later_load_event)

lemma later_after_orders:
  "later {} g (fold load_event evs (fold load_order_item items g))"
  by (rule later_trans [OF later_fold later_after_items]) (rule later_load_order_item)

lemma later_after_customers:
  "later {Order} g
     (fold load_event evs (fold load_order_item items (fold load_order ords g)))"
proof (rule later_trans)
  show "later {Order} g (fold load_order ords g)"
    by (rule later_fold) (rule later_load_order)
  show "later {Order} (fold load_order ords g)
     (fold load_event evs (fold load_order_item items (fold load_order ords g)))"
    by (rule later_mono [OF later_after_orders]) simp
qed

lemma later_after_products:
  "later {Customer, Order} g
     (fold load_event evs (fold load_order_item items (fold load_order ords
        (fold load_customer custs g))))"
proof (rule later_trans)
  show "later {Customer, Order} g (fold load_customer custs g)"
    by (rule later_mono [OF later_fold]) (rule later_load_customer, simp)
  show "later {Customer, Order} (fold load_customer custs g)
     (fold load_event evs (fold load_order_item items (fold load_order ords
        (fold load_customer custs g))))"
    by (rule later_mono [OF later_after_customers]) simp
qed

lemma later_after_categories:
  "later {Product, Customer, Order} g
     (fold load_event evs (fold load_order_item items (fold load_order ords
        (fold load_customer custs (fold load_product prods g)))))"
proof (rule later_trans)
  show "later {Product, Customer, Order} g (fold load_product prods g)"
    by (rule later_mono [OF later_fold]) (rule later_load_product, simp)
  show "later {Product, Customer, Order} (fold load_product prods g)
     (fold load_event evs (fold load_order_item items (fold load_order ords
        (fold load_customer custs (fold load_product prods g)))))"
    by (rule later_mono [OF later_after_products]) auto
qed

lemma settled_fold_product:
  assumes "settled l kfs g" and "l \<noteq> Product"
  shows "settled l kfs (fold load_product rows g)"
proof (rule fold_preserves [where P = "settled l kfs"])
  fix x g' assume "settled l kfs g'"
  then show "settled l kfs (load_product x g')" using assms(2) by (rule settled_load_product)
next
  show "settled l kfs g" by fact
qed

lemma settled_fold_customer:
  assumes "settled l kfs g" and "l \<noteq> Customer"
  shows "settled l kfs (fold load_customer rows g)"
proof (rule fold_preserves [where P = "settled l kfs"])
  fix x g' assume "settled l kfs g'"
  then show "settled l kfs (load_customer x g')" using assms(2) by (rule settled_load_customer)
next
  show "settled l kfs g" by fact
qed

lemma settled_fold_order:
  assumes "settled l kfs g" and "l \<noteq> Order"
  shows "settled l kfs (fold load_order rows g)"
proof (rule fold_preserves [where P = "settled l kfs"])
  fix x g' assume "settled l kfs g'"
  then show "settled l kfs (load_order x g')" using assms(2) by (rule settled_load_order)
next
  show "settled l kfs g" by fact
qed

lemma settled_fold_rels:
  "settled l kfs g \<Longrightarrow> settled l kfs (fold load_event evs (fold load_order_item items g))"
  by (simp add: settled_def)

lemma present_categories:
  "\<forall>row \<in> set rows. (Category, cat_id row) \<in> set (keys (fold load_category rows g))"
proof (rule fold_establishes [where Q = "\<lambda>row g. (Category, cat_id row) \<in> set (keys g)"])
  fix x g show "(Category, cat_id x) \<in> set (keys (load_category x g))"
    by (rule category_present)
next
  fix x y g assume "(Category, cat_id x) \<in> set (keys g)"
  then show "(Category, cat_id x) \<in> set (keys (load_category y g))"
    using later_load_category by (rule present_later)
qed

lemma present_customers:
  "\<forall>row \<in> set rows. (Customer, cust_id row) \<in> set (keys (fold load_customer rows g))"
proof (rule fold_establishes [where Q = "\<lambda>row g. (Customer, cust_id row) \<in> set (keys g)"])
  fix x g show "(Customer, cust_id x) \<in> set (keys (load_customer x g))"
    by (rule customer_present)
next
  fix x y g assume "(Customer, cust_id x) \<in> set (keys g)"
  then show "(Customer, cust_id x) \<in> set (keys (load_customer y g))"
    using later_load_customer by (rule present_later)
qed

lemma linked_products: "\<forall>row \<in> set rows. product_linked row (fold load_product rows g)"
proof (rule fold_establishes [where Q = product_linked])
  fix x g show "product_linked x (load_product x g)"
    by (rule product_linked_load_product)
next
  fix x y g assume "product_linked x g"
  then show "product_linked x (load_product y g)"
    using later_load_product by (rule product_linked_later) simp
qed

lemma linked_orders: "\<forall>row \<in> set rows. order_linked row (fold load_order rows g)"
proof (rule fold_establishes [where Q = order_linked])
  fix x g show "order_linked x (load_order x g)"
    by (rule order_linked_load_order)
next
  fix x y g assume "order_linked x g"
  then show "order_linked x (load_order y g)"
    using later_load_order by (rule order_linked_later) simp
qed

lemma linked_items: "\<forall>row \<in> set rows. item_linked row (fold load_order_item rows g)"
proof (rule fold_establishes [where Q = item_linked])
  fix x g show "item_linked x (load_order_item x g)"
    by (rule item_linked_load_order_item)
next
  fix x y g assume "item_linked x g"
  then show "item_linked x (load_order_item y g)"
    using later_load_order_item by (rule item_linked_later)
qed

lemma requantify_untargeted:
  "\<forall>row \<in> set rows. \<not> targets g row r \<Longrightarrow> requantify g rows r = r"
  unfolding requantify_def by (induction rows) (simp_all add: requant1_def)

lemma rels_fold_load_event:
  "keys g = keys g0 \<Longrightarrow> rels (fold load_event rows g) = rels g @ new_events rows g0"
proof (induction rows arbitrary: g)
  case Nil
  then show ?case by (simp add: new_events_def)
next
  case (Cons row rows)
  have k: "keys (load_event row g) = keys g0"
    using Cons.prems by (simp add: keys_def)
  have "rels (load_event row g) = rels g @ map (event_rel row)
      [(c, p). c \<leftarrow> node_ids Customer (ev_customer_id row) g,
               p \<leftarrow> node_ids Product (ev_product_id row) g]"
    unfolding load_event_def by (rule rels_fold_create)
  also have "\<dots> = rels g @ map (event_rel row)
      [(c, p). c \<leftarrow> node_ids Customer (ev_customer_id row) g0,
               p \<leftarrow> node_ids Product (ev_product_id row) g0]"
    unfolding node_ids_cong [OF Cons.prems] ..
  finally have r: "rels (load_event row g) = rels g @ map (event_rel row)
      [(c, p). c \<leftarrow> node_ids Customer (ev_customer_id row) g0,
               p \<leftarrow> node_ids Product (ev_product_id row) g0]" .
  from Cons.IH [OF k] show ?case
    by (simp add: r new_events_def)
qed

lemma new_events_are_events: "r \<in> set (new_events rows g) \<Longrightarrow> is_event (rtype r)"
  by (auto simp: new_events_def event_rel_def is_event_rel_type)

lemma new_events_cong: "keys g' = keys g \<Longrightarrow> new_events rows g' = new_events rows g"
  by (simp add: new_events_def node_ids_keys)

lemma quantities_settled_events:
  assumes "quantities_settled items g"
  shows "quantities_settled items (fold load_event evs g)"
proof -
  let ?G = "fold load_event evs g"
  have k: "keys ?G = keys g" by (simp add: keys_def)
  have r: "rels ?G = rels g @ new_events evs g"
    by (rule rels_fold_load_event [OF refl])
  have "requantify g items r = r" if "r \<in> set (new_events evs g)" for r
  proof (rule requantify_untargeted, intro ballI)
    fix row
    from new_events_are_events [OF that] show "\<not> targets g row r"
      by (auto simp: targets_def is_event_def)
  qed
  with assms show ?thesis
    unfolding quantities_settled_def requantify_cong [OF k] r by auto
qed

lemma loaded_etl: "loaded t (etl t g)"
  unfolding loaded_def etl_def
proof (intro conjI ballI)
  fix row assume "row \<in> set (categories_df t)"
  with present_categories have
    "(Category, cat_id row) \<in> set (keys (fold load_category (categories_df t) g))" by blast
  then show "(Category, cat_id row) \<in> set (keys
     (fold load_event (events_df t) (fold load_order_item (order_items_df t)
       (fold load_order (orders_df t) (fold load_customer (customers_df t)
         (fold load_product (products_df t) (fold load_category (categories_df t) g)))))))"
    using later_after_categories by (rule present_later)
next
  show "settled Category (map category_write (categories_df t))
     (fold load_event (events_df t) (fold load_order_item (order_items_df t)
       (fold load_order (orders_df t) (fold load_customer (customers_df t)
         (fold load_product (products_df t) (fold load_category (categories_df t) g))))))"
    by (intro settled_fold_rels settled_fold_order settled_fold_customer settled_fold_product
        settled_categories) simp_all
next
  fix row assume "row \<in> set (products_df t)"
  with linked_products have
    "product_linked row (fold load_product (products_df t)
       (fold load_category (categories_df t) g))" by blast
  then show "product_linked row
     (fold load_event (events_df t) (fold load_order_item (order_items_df t)
       (fold load_order (orders_df t) (fold load_customer (customers_df t)
         (fold load_product (products_df t) (fold load_category (categories_df t) g))))))"
    using later_after_products by (rule product_linked_later) simp
next
  show "settled Product (map product_write (products_df t))
     (fold load_event (events_df t) (fold load_order_item (order_items_df t)
       (fold load_order (orders_df t) (fold load_customer (customers_df t)
         (fold load_product (products_df t) (fold load_category (categories_df t) g))))))"
    by (intro settled_fold_rels settled_fold_order settled_fold_customer settled_products)
       simp_all
next
  fix row assume "row \<in> set (customers_df t)"
  with present_customers have
    "(Customer, cust_id row) \<in> set (keys (fold load_customer (customers_df t)
        (fold load_product (products_df t) (fold load_category (categories_df t) g))))"
    by blast
  then show "(Customer, cust_id row) \<in> set (keys
     (fold load_event (events_df t) (fold load_order_item (order_items_df t)
       (fold load_order (orders_df t) (fold load_customer (customers_df t)
         (fold load_product (products_df t) (fold load_category (categories_df t) g)))))))"
    using later_after_customers by (rule present_later)
next
  show "settled Customer (map customer_write (customers_df t))
     (fold load_event (events_df t) (fold load_order_item (order_items_df t)
       (fold load_order (orders_df t) (fold load_customer (customers_df t)
         (fold load_product (products_df t) (fold load_category (categories_df t) g))))))"
    by (intro settled_fold_rels settled_fold_order settled_customers) simp_all
next
  fix row assume "row \<in> set (orders_df t)"
  with linked_orders have
    "order_linked row (fold load_order (orders_df t) (fold load_customer (customers_df t)
        (fold load_product (products_df t) (fold load_category (categories_df t) g))))"
    by blast
  then show "order_linked row
     (fold load_event (events_df t) (fold load_order_item (order_items_df t)
       (fold load_order (orders_df t) (fold load_customer (customers_df t)
         (fold load_product (products_df t) (fold load_category (categories_df t) g))))))"
    using later_after_orders by (rule order_linked_later) simp
next
  show "settled Order (map order_write (orders_df t))
     (fold load_event (events_df t) (fold load_order_item (order_items_df t)
       (fold load_order (orders_df t) (fold load_customer (customers_df t)
         (fold load_product (products_df t) (fold load_category (categories_df t) g))))))"
    by (intro settled_fold_rels settled_orders)
next
  fix row assume "row \<in> set (order_items_df t)"
  with linked_items have
    "item_linked row (fold load_order_item (order_items_df t)
       (fold load_order (orders_df t) (fold load_customer (customers_df t)
        (fold load_product (products_df t) (fold load_category (categories_df t) g)))))"
    by blast
  then show "item_linked row
     (fold load_event (events_df t) (fold load_order_item (order_items_df t)
       (fold load_order (orders_df t) (fold load_customer (customers_df t)
         (fold load_product (products_df t) (fold load_category (categories_df t) g))))))"
    using later_after_items by (rule item_linked_later)
next
  show "quantities_settled (order_items_df t)
     (fold load_event (events_df t) (fold load_order_item (order_items_df t)
       (fold load_order (orders_df t) (fold load_customer (customers_df t)
         (fold load_product (products_df t) (fold load_category (categories_df t) g))))))"
    by (intro quantities_settled_events quantities_settled_fold)
qed

subsection \<open>Event relationships\<close>

lemma event_rels_cong: "rels g' = rels g \<Longrightarrow> event_rels g' = event_rels g"
  by (simp add: event_rels_def)

lemma event_rels_merge_rel: "\<not> is_event t \<Longrightarrow> event_rels (merge_rel t ab g) = event_rels g"
  by (simp add: event_rels_def merge_rel_def new_rel_def)

lemma event_rels_set_rels:
  assumes "\<And>r. rel_key (f r) = rel_key r" and "\<not> is_event t"
  shows "event_rels (set_rels t ab f g) = event_rels g"
proof -
  let ?h = "\<lambda>r. if rel_between t (fst ab) (snd ab) r then f r else r"
  have t: "rtype (f r) = rtype r" for r
    using assms(1) [of r] by (simp add: rel_key_def)
  have "[r \<leftarrow> map ?h rs. is_event (rtype r)] = [r \<leftarrow> rs. is_event (rtype r)]" for rs
    using assms(2) by (induction rs) (auto simp: t rel_between_def)
  then show ?thesis
    by (simp add: event_rels_def set_rels_def)
qed

lemma event_rels_load_category: "event_rels (load_category row g) = event_rels g"
  by (rule event_rels_cong) (simp add: load_category_def)

lemma event_rels_load_customer: "event_rels (load_customer row g) = event_rels g"
  by (rule event_rels_cong) (simp add: load_customer_def)

lemma event_rels_fold:
  "(\<And>x g. event_rels (f x g) = event_rels g) \<Longrightarrow> event_rels (fold f xs g) = event_rels g"
  by (induction xs arbitrary: g) simp_all

lemma event_rels_load_product: "event_rels (load_product row g) = event_rels g"
proof -
  have "event_rels (load_product row g) = event_rels (upsert Product (product_write row) g)"
    unfolding load_product_eq
    by (rule event_rels_fold) (simp add: event_rels_merge_rel is_event_def)
  also have "\<dots> = event_rels g"
    by (rule event_rels_cong) simp
  finally show ?thesis .
qed

lemma event_rels_load_order: "event_rels (load_order row g) = event_rels g"
proof -
  have "event_rels (load_order row g) = event_rels (upsert Order (order_write row) g)"
    unfolding load_order_eq
    by (rule event_rels_fold) (simp add: event_rels_merge_rel is_event_def)
  also have "\<dots> = event_rels g"
    by (rule event_rels_cong) simp
  finally show ?thesis .
qed

lemma event_rels_load_order_item: "event_rels (load_order_item row g) = event_rels g"
  unfolding load_order_item_def
  by (rule event_rels_fold)
     (simp add: event_rels_set_rels event_rels_merge_rel is_event_def rel_key_def)

lemma event_rels_before_events:
  "event_rels (fold load_order_item (order_items_df t) (load_entities t g)) = event_rels g"
  unfolding load_entities_def
  by (simp add: event_rels_fold event_rels_load_category event_rels_load_product
      event_rels_load_customer event_rels_load_order event_rels_load_order_item)

lemma filter_events_new: "[r \<leftarrow> new_events rows g. is_event (rtype r)] = new_events rows g"
  by (simp add: filter_id_conv new_events_are_events)

lemma filter_entities_new: "[r \<leftarrow> new_events rows g. \<not> is_event (rtype r)] = []"
  by (simp add: filter_empty_conv new_events_are_events)

lemma event_rels_fold_load_event:
  "event_rels (fold load_event rows g) = event_rels g @ new_events rows g"
  by (simp add: event_rels_def rels_fold_load_event [OF refl] filter_events_new)

lemma entity_rels_fold_load_event:
  "entity_rels (fold load_event rows g) = entity_rels g"
  by (simp add: entity_rels_def rels_fold_load_event [OF refl] filter_entities_new)

subsection \<open>The second load\<close>

lemma second_load: "etl t (etl t g) = fold load_event (events_df t) (etl t g)"
  unfolding etl_phases [of t "etl t g"] loaded_fixed [OF loaded_etl] ..

text \<open>
  Claim C2.  Loading the same tables a second time leaves the nodes as they are, with
  their attributes, and leaves the relationships that are not events (IN_CATEGORY, PLACED,
  CONTAINS) as they are.  The event relationships that the first load created are created
  once more: starting from the empty store, the second load doubles their number.
\<close>

theorem reload_keeps_entities_doubles_events:
  "nodes (etl t (etl t g)) = nodes (etl t g)
   \<and> entity_rels (etl t (etl t g)) = entity_rels (etl t g)
   \<and> (\<exists>new. event_rels (etl t g) = event_rels g @ new
          \<and> event_rels (etl t (etl t g)) = event_rels g @ new @ new)
   \<and> length (event_rels (etl t (etl t empty_graph)))
       = 2 * length (event_rels (etl t empty_graph))"
proof -
  let ?g5 = "fold load_order_item (order_items_df t) (load_entities t g)"
  let ?new = "new_events (events_df t) ?g5"
  have n: "nodes (etl t (etl t g)) = nodes (etl t g)"
    unfolding second_load by simp
  have e: "entity_rels (etl t (etl t g)) = entity_rels (etl t g)"
    unfolding second_load by (rule entity_rels_fold_load_event)
  have one: "event_rels (etl t g) = event_rels g @ ?new"
    unfolding etl_phases event_rels_fold_load_event event_rels_before_events ..
  have k: "keys (etl t g) = keys ?g5"
    unfolding etl_phases by (simp add: keys_def)
  have two: "event_rels (etl t (etl t g)) = event_rels g @ ?new @ ?new"
    unfolding second_load event_rels_fold_load_event one new_events_cong [OF k] by simp
  from one two have "\<exists>new. event_rels (etl t g) = event_rels g @ new
          \<and> event_rels (etl t (etl t g)) = event_rels g @ new @ new"
    by blast
  moreover have "length (event_rels (etl t (etl t empty_graph)))
       = 2 * length (event_rels (etl t empty_graph))"
  proof -
    let ?n = "new_events (events_df t)
       (fold load_order_item (order_items_df t) (load_entities t empty_graph))"
    have a: "event_rels (etl t empty_graph) = ?n"
      unfolding etl_phases event_rels_fold_load_event event_rels_before_events
      by (simp add: event_rels_def empty_graph_def)
    have k0: "keys (etl t empty_graph)
        = keys (fold load_order_item (order_items_df t) (load_entities t empty_graph))"
      unfolding etl_phases by (simp add: keys_def)
    have "event_rels (etl t (etl t empty_graph)) = ?n @ ?n"
      unfolding second_load event_rels_fold_load_event a new_events_cong [OF k0] ..
    with a show ?thesis by simp
  qed
  ultimately show ?thesis using n e by blast
qed

theorem reload_keeps_entities_doubles_events_witness:
  "nodes (etl shop shop_graph) = nodes shop_graph
   \<and> entity_rels (etl shop shop_graph) = entity_rels shop_graph
   \<and> length (event_rels shop_graph) = length (events_df shop)
   \<and> length (event_rels (etl shop shop_graph)) = 2 * length (events_df shop)"
proof -
  note inst = reload_keeps_entities_doubles_events [of shop empty_graph]
  have l: "length (event_rels (etl shop empty_graph)) = length (events_df shop)"
    by code_simp
  from inst l show ?thesis
    unfolding shop_graph_def by simp
qed

end
